theory Spec2Isabelle
  imports Main "HOL-Library.Multiset"
begin

section \<open>Data model of the move orderer (moveorder.h, moveorder.cpp)\<close>

text \<open>
  Modelled from the spec: the type \<open>Move\<close> and its accessors \<open>getStartSq\<close>, \<open>getEndSq\<close>,
  \<open>getPromotion\<close>, \<open>isCapture\<close> are declared in common.h, which is not part of the sources
  at hand. The spec describes a move as an immutable value encoding origin square,
  destination square, promotion piece and a capture flag, with a reserved sentinel for
  "no move".
\<close>

datatype Move = Move (getStartSq: int) (getEndSq: int) (getPromotion: int) (isCapture: bool)

definition NULL_MOVE :: Move where
  "NULL_MOVE = Move 0 0 0 False"

text \<open>
  Modelled from the spec: the piece identifier of the highest-value promotion piece
  (common.h). No statement below depends on the number chosen.
\<close>

definition QUEENS :: int where
  "QUEENS = 4"

datatype MoveGenStage = STAGE_NONE | STAGE_HASH_MOVE | STAGE_CAPTURES | STAGE_QUIETS

definition SCORE_IID_MOVE :: int where
  "SCORE_IID_MOVE = 2 ^ 20"

definition SCORE_WINNING_CAPTURE :: int where
  "SCORE_WINNING_CAPTURE = 2 ^ 18"

definition SCORE_QUEEN_PROMO :: int where
  "SCORE_QUEEN_PROMO = 2 ^ 17"

definition SCORE_EVEN_CAPTURE :: int where
  "SCORE_EVEN_CAPTURE = 2 ^ 16"

definition SCORE_QUIET_MOVE :: int where
  "SCORE_QUIET_MOVE = - (2 ^ 30)"

definition SCORE_LOSING_CAPTURE :: int where
  "SCORE_LOSING_CAPTURE = - (2 ^ 30) - 2 ^ 28"

text \<open>
  Modelled from the spec: the types \<open>Board\<close>, \<open>SearchParameters\<close> and \<open>SearchStackInfo\<close>
  behind the pointers \<open>b\<close>, \<open>searchParams\<close> and \<open>ssi\<close> are declared in board.h and
  searchparams.h, which are not part of the sources at hand. Only the members that
  moveorder.cpp reads or writes are kept, each as a parameter. The board is read-only
  here, so its queries are functions of the side and the move (or square). The history
  tables are C arrays indexed by side, piece and square; they are functions of the
  indices. A null \<open>counterMoveHistory\<close> or \<open>followupMoveHistory\<close> pointer is \<open>None\<close>.
  The three tables are separate objects: a write to one is not seen through another.
\<close>

record Board =
  getSEEForMove :: "int \<Rightarrow> Move \<Rightarrow> int"
  getMVVLVAScore :: "int \<Rightarrow> Move \<Rightarrow> int"
  getExchangeScore :: "int \<Rightarrow> Move \<Rightarrow> int"
  getPieceOnSquare :: "int \<Rightarrow> int \<Rightarrow> int"

record SearchParameters =
  killers :: "int \<Rightarrow> nat \<Rightarrow> Move"
  historyTable :: "int \<Rightarrow> int \<Rightarrow> int \<Rightarrow> int"

record SearchStackInfo =
  ply :: int
  counterMoveHistory :: "(int \<Rightarrow> int \<Rightarrow> int) option"
  followupMoveHistory :: "(int \<Rightarrow> int \<Rightarrow> int) option"

text \<open>
  \<open>struct MoveOrder\<close>. The fields \<open>b\<close>, \<open>searchParams\<close> and \<open>ssi\<close> hold the objects the
  pointers refer to, so that \<open>updateHistories\<close> returns the tables it has written.
  The two \<open>unsigned int\<close> cursors are naturals (no list of moves comes near \<open>2 ^ 32\<close>
  entries). Scores, depths and weights are C++ \<open>int\<close>, 32 bits wide: they are
  integers, and the result of every addition, subtraction and multiplication of the
  source is taken through \<open>int32\<close> below.
\<close>

record MoveOrder =
  b :: Board
  color :: int
  depth :: int
  isPVNode :: bool
  searchParams :: SearchParameters
  ssi :: SearchStackInfo
  mgStage :: MoveGenStage
  hashed :: Move
  legalMoves :: "Move list"
  scores :: "int list"
  quietStart :: nat
  index :: nat

text \<open>
  The value of an \<open>int\<close> operation whose exact result is \<open>x\<close>: the two's complement
  wrap-around into the range from \<open>- (2 ^ 31)\<close> to \<open>2 ^ 31 - 1\<close>.
\<close>

definition int32 :: "int \<Rightarrow> int" where
  "int32 x = (x + 2 ^ 31) mod 2 ^ 32 - 2 ^ 31"

text \<open>The constructor: stage \<open>STAGE_NONE\<close>, both cursors 0, an empty score list.\<close>

definition MoveOrder_new ::
  "Board \<Rightarrow> int \<Rightarrow> int \<Rightarrow> bool \<Rightarrow> SearchParameters \<Rightarrow> SearchStackInfo \<Rightarrow> Move \<Rightarrow> Move list
    \<Rightarrow> MoveOrder" where
  "MoveOrder_new bd c d pv sp st h ms =
     \<lparr> b = bd, color = c, depth = d, isPVNode = pv, searchParams = sp, ssi = st,
       mgStage = STAGE_NONE, hashed = h, legalMoves = ms, scores = [],
       quietStart = 0, index = 0 \<rparr>"

text \<open>
  Modelled from the spec: \<open>MoveList\<close> and \<open>ScoreList\<close> (common.h) are ordered sequences
  with \<open>size\<close>, \<open>get\<close>, \<open>add\<close> (append), \<open>remove\<close> of the entry at an index, keeping the
  order of the others, and \<open>swap\<close> of two indices.
\<close>

definition remove :: "nat \<Rightarrow> 'a list \<Rightarrow> 'a list" where
  "remove i xs = take i xs @ drop (Suc i) xs"

definition swap :: "nat \<Rightarrow> nat \<Rightarrow> 'a list \<Rightarrow> 'a list" where
  "swap i j xs = xs[i := xs ! j, j := xs ! i]"

text \<open>
  A read or swap at an index that is not below the size of the list is undefined
  behaviour in the C++ code; where a function of moveorder.cpp could do that in some
  state, the model returns \<open>Inl OutOfRange\<close>. \<open>OutOfFuel\<close> belongs to the bounded
  iteration of the callers defined further down.
\<close>

datatype error = OutOfRange | OutOfFuel

section \<open>Staged generation\<close>

text \<open>\<open>findQuietStart\<close>: the index of the first non-capture, or the size of the list.\<close>

definition findQuietStart :: "MoveOrder \<Rightarrow> MoveOrder" where
  "findQuietStart s =
     (case find (\<lambda>i. \<not> isCapture (legalMoves s ! i)) [0..<length (legalMoves s)] of
        Some i \<Rightarrow> s\<lparr>quietStart := i\<rparr>
      | None \<Rightarrow> s\<lparr>quietStart := length (legalMoves s)\<rparr>)"

text \<open>The score that one round of the loop of \<open>scoreCaptures\<close> adds for the move \<open>m\<close>.\<close>

definition captureScore :: "MoveOrder \<Rightarrow> Move \<Rightarrow> int" where
  "captureScore s m =
     (if isPVNode s then
        (let see = getSEEForMove (b s) (color s) m in
         if see > 0
         then int32 (int32 (SCORE_WINNING_CAPTURE + see) + getMVVLVAScore (b s) (color s) m)
         else if see = 0 then int32 (SCORE_EVEN_CAPTURE + getMVVLVAScore (b s) (color s) m)
         else int32 (int32 (SCORE_LOSING_CAPTURE + see) + getMVVLVAScore (b s) (color s) m))
      else
        (let exchange = getExchangeScore (b s) (color s) m in
         if exchange > 0
         then int32 (SCORE_WINNING_CAPTURE + getMVVLVAScore (b s) (color s) m)
         else if exchange = 0
         then int32 (SCORE_EVEN_CAPTURE + getMVVLVAScore (b s) (color s) m)
         else
           (let see = getSEEForMove (b s) (color s) m in
            if see > 0
            then int32 (SCORE_WINNING_CAPTURE + getMVVLVAScore (b s) (color s) m)
            else if see = 0
            then int32 (SCORE_EVEN_CAPTURE + getMVVLVAScore (b s) (color s) m)
            else int32 (SCORE_LOSING_CAPTURE + getMVVLVAScore (b s) (color s) m))))"

text \<open>
  \<open>scoreCaptures\<close>: for \<open>i\<close> from 0 below \<open>quietStart\<close>, append the score of the move at
  \<open>i\<close>. It is private and only called right after \<open>findQuietStart\<close>, so \<open>quietStart\<close> is at
  most the size of the list and every read is in range.
\<close>

definition scoreCaptures :: "MoveOrder \<Rightarrow> MoveOrder" where
  "scoreCaptures s =
     s\<lparr>scores := scores s @ map (\<lambda>i. captureScore s (legalMoves s ! i)) [0..<quietStart s]\<rparr>"

text \<open>The score that one round of the loop of \<open>scoreQuiets\<close> adds for the move \<open>m\<close>.\<close>

definition quietScore :: "MoveOrder \<Rightarrow> Move \<Rightarrow> int" where
  "quietScore s m =
     (if m = killers (searchParams s) (ply (ssi s)) 0 then SCORE_EVEN_CAPTURE - 1
      else if getPromotion m = QUEENS then SCORE_QUEEN_PROMO
      else
        (let startSq = getStartSq m;
             endSq = getEndSq m;
             pieceID = getPieceOnSquare (b s) (color s) startSq
         in int32
              (int32
                 (int32 (SCORE_QUIET_MOVE + historyTable (searchParams s) (color s) pieceID endSq)
                  + (case counterMoveHistory (ssi s) of
                       Some t \<Rightarrow> t pieceID endSq | None \<Rightarrow> 0))
               + (case followupMoveHistory (ssi s) of
                    Some t \<Rightarrow> t pieceID endSq | None \<Rightarrow> 0))))"

text \<open>\<open>scoreQuiets\<close>: for \<open>i\<close> from \<open>quietStart\<close> below the size of the list.\<close>

definition scoreQuiets :: "MoveOrder \<Rightarrow> MoveOrder" where
  "scoreQuiets s =
     s\<lparr>scores := scores s
          @ map (\<lambda>i. quietScore s (legalMoves s ! i)) [quietStart s..<length (legalMoves s)]\<rparr>"

text \<open>
  \<open>generateMoves\<close>: one step of the stage machine. In \<open>STAGE_NONE\<close> with a hash move, the
  first entry equal to the hash move is removed and the switch is left; without one,
  control falls through to the case \<open>STAGE_HASH_MOVE\<close>.
\<close>

definition generateMoves :: "MoveOrder \<Rightarrow> MoveOrder" where
  "generateMoves s =
     (case mgStage s of
        STAGE_NONE \<Rightarrow>
          if hashed s \<noteq> NULL_MOVE then
            (case find (\<lambda>i. legalMoves s ! i = hashed s) [0..<length (legalMoves s)] of
               Some i \<Rightarrow> s\<lparr>mgStage := STAGE_HASH_MOVE, legalMoves := remove i (legalMoves s)\<rparr>
             | None \<Rightarrow> s\<lparr>mgStage := STAGE_HASH_MOVE\<rparr>)
          else scoreCaptures ((findQuietStart s)\<lparr>mgStage := STAGE_CAPTURES\<rparr>)
      | STAGE_HASH_MOVE \<Rightarrow> scoreCaptures ((findQuietStart s)\<lparr>mgStage := STAGE_CAPTURES\<rparr>)
      | STAGE_CAPTURES \<Rightarrow> scoreQuiets (s\<lparr>mgStage := STAGE_QUIETS\<rparr>)
      | STAGE_QUIETS \<Rightarrow> s)"

section \<open>Selection\<close>

text \<open>
  The scan of \<open>nextMove\<close> for the best score from the cursor on: a later entry replaces
  the best one only when its score is strictly greater.
\<close>

definition findBest :: "MoveOrder \<Rightarrow> nat \<times> int" where
  "findBest s =
     fold (\<lambda>i (bestIndex, bestScore).
             if scores s ! i > bestScore then (i, scores s ! i) else (bestIndex, bestScore))
          [index s + 1..<length (scores s)]
          (index s, scores s ! index s)"

text \<open>
  The part of \<open>nextMove\<close> after its \<open>while\<close> loop, entered with the cursor below the size
  of the score list: swap the best entry to the cursor, generate the quiet moves when
  the best score of the capture stage is below the winning tier, return the move at the
  cursor and advance the cursor.
\<close>

definition pickBest :: "MoveOrder \<Rightarrow> error + (Move \<times> MoveOrder)" where
  "pickBest s =
     (let (bestIndex, bestScore) = findBest s in
      if \<not> (bestIndex < length (legalMoves s) \<and> index s < length (legalMoves s))
      then Inl OutOfRange
      else
        (let s1 = s\<lparr>legalMoves := swap bestIndex (index s) (legalMoves s),
                     scores := swap bestIndex (index s) (scores s)\<rparr>;
             s2 = (if mgStage s1 = STAGE_CAPTURES \<and> bestScore < SCORE_WINNING_CAPTURE
                   then generateMoves s1 else s1)
         in Inr (legalMoves s2 ! index s2, s2\<lparr>index := index s2 + 1\<rparr>)))"

text \<open>
  The \<open>while\<close> loop of \<open>nextMove\<close> and what follows it: as long as the cursor is at the
  end of the score list, report exhaustion in \<open>STAGE_QUIETS\<close> and generate more otherwise.
\<close>

function nextMoveLoop :: "MoveOrder \<Rightarrow> error + (Move \<times> MoveOrder)" where
  "nextMoveLoop s =
     (if index s \<ge> length (scores s) then
        (if mgStage s = STAGE_QUIETS then Inr (NULL_MOVE, s)
         else nextMoveLoop (generateMoves s))
      else pickBest s)"
  by pat_completeness auto
termination
  by (relation "measure (\<lambda>s. case mgStage s of STAGE_NONE \<Rightarrow> 3 | STAGE_HASH_MOVE \<Rightarrow> 2
                                | STAGE_CAPTURES \<Rightarrow> Suc 0 | STAGE_QUIETS \<Rightarrow> 0)")
     (auto simp: generateMoves_def scoreCaptures_def scoreQuiets_def findQuietStart_def
           split: MoveGenStage.splits option.splits)

definition nextMove :: "MoveOrder \<Rightarrow> error + (Move \<times> MoveOrder)" where
  "nextMove s = (if mgStage s = STAGE_HASH_MOVE then Inr (hashed s, s) else nextMoveLoop s)"

section \<open>History update\<close>

text \<open>C++ division of \<open>int\<close> truncates towards zero.\<close>

definition cdiv :: "int \<Rightarrow> int \<Rightarrow> int" where
  "cdiv x y = sgn x * sgn y * (\<bar>x\<bar> div \<bar>y\<bar>)"

text \<open>
  The two statements applied to a table entry \<open>w\<close>: \<open>w -= histDepth * w / 64\<close> followed by
  \<open>w += histDepth * histDepth\<close> for the best move, and by \<open>w -= histDepth * histDepth\<close> for
  a quiet move tried before it, each product, difference and sum in \<open>int\<close>.
\<close>

definition reinforce :: "int \<Rightarrow> int \<Rightarrow> int" where
  "reinforce histDepth w =
     int32 (int32 (w - cdiv (int32 (histDepth * w)) 64) + int32 (histDepth * histDepth))"

definition penalise :: "int \<Rightarrow> int \<Rightarrow> int" where
  "penalise histDepth w =
     int32 (int32 (w - cdiv (int32 (histDepth * w)) 64) - int32 (histDepth * histDepth))"

text \<open>
  The block of \<open>updateHistories\<close> that is written once for the best move and once inside
  the loop: look up the key of move \<open>m\<close> and apply \<open>f\<close> to its entry in the main table and
  in each of the two optional tables that is present.
\<close>

definition touchHistories :: "(int \<Rightarrow> int) \<Rightarrow> Move \<Rightarrow> MoveOrder \<Rightarrow> MoveOrder" where
  "touchHistories f m s =
     (let startSq = getStartSq m;
          endSq = getEndSq m;
          pieceID = getPieceOnSquare (b s) (color s) startSq;
          sp = searchParams s;
          st = ssi s;
          h = historyTable sp
      in s\<lparr>searchParams :=
             sp\<lparr>historyTable :=
                  h(color s := (h (color s))(pieceID := (h (color s) pieceID)
                                                (endSq := f (h (color s) pieceID endSq))))\<rparr>,
           ssi :=
             st\<lparr>counterMoveHistory :=
                  map_option (\<lambda>t. t(pieceID := (t pieceID)(endSq := f (t pieceID endSq))))
                    (counterMoveHistory st),
                followupMoveHistory :=
                  map_option (\<lambda>t. t(pieceID := (t pieceID)(endSq := f (t pieceID endSq))))
                    (followupMoveHistory st)\<rparr>\<rparr>)"

text \<open>
  The penalty loop over the indices \<open>0 ..< index - 1\<close>: stop at the best move, skip
  captures, penalise every other move.
\<close>

fun penaltyLoop :: "int \<Rightarrow> Move \<Rightarrow> nat list \<Rightarrow> MoveOrder \<Rightarrow> error + MoveOrder" where
  "penaltyLoop histDepth bestMove [] s = Inr s"
| "penaltyLoop histDepth bestMove (i # is) s =
     (if \<not> i < length (legalMoves s) then Inl OutOfRange
      else if legalMoves s ! i = bestMove then Inr s
      else if isCapture (legalMoves s ! i) then penaltyLoop histDepth bestMove is s
      else penaltyLoop histDepth bestMove is
             (touchHistories (penalise histDepth) (legalMoves s ! i) s))"

definition updateHistories :: "MoveOrder \<Rightarrow> Move \<Rightarrow> error + MoveOrder" where
  "updateHistories s bestMove =
     (let histDepth = min (depth s) 12;
          s1 = touchHistories (reinforce histDepth) bestMove s
      in if index s \<le> 0 then Inr s1
         else penaltyLoop histDepth bestMove [0..<index s - 1] s1)"

section \<open>Callers\<close>

text \<open>
  The caller's loop \<open>for (m = nextMove(); m != NULL_MOVE; m = nextMove())\<close>, bounded by
  fuel: the moves pulled before exhaustion is reported, and the final state.
\<close>

fun drain :: "nat \<Rightarrow> MoveOrder \<Rightarrow> error + (Move list \<times> MoveOrder)" where
  "drain 0 s = Inl OutOfFuel"
| "drain (Suc n) s =
     (case nextMove s of
        Inl e \<Rightarrow> Inl e
      | Inr (m, s') \<Rightarrow>
          if m = NULL_MOVE then Inr ([], s')
          else (case drain n s' of
                  Inl e \<Rightarrow> Inl e
                | Inr (ms, s'') \<Rightarrow> Inr (m # ms, s'')))"

text \<open>\<open>n\<close> calls of \<open>nextMove\<close> in a row, whatever they return.\<close>

fun nextMoves :: "nat \<Rightarrow> MoveOrder \<Rightarrow> error + (Move list \<times> MoveOrder)" where
  "nextMoves 0 s = Inr ([], s)"
| "nextMoves (Suc n) s =
     (case nextMove s of
        Inl e \<Rightarrow> Inl e
      | Inr (m, s') \<Rightarrow>
          (case nextMoves n s' of
             Inl e \<Rightarrow> Inl e
           | Inr (ms, s'') \<Rightarrow> Inr (m # ms, s'')))"

text \<open>
  A caller that uses the hash stage: \<open>generateMoves\<close> once; when that enters
  \<open>STAGE_HASH_MOVE\<close>, one \<open>nextMove\<close> for the hash move and \<open>generateMoves\<close> again to leave
  the stage; then the loop above.
\<close>

definition drainWithHash :: "nat \<Rightarrow> MoveOrder \<Rightarrow> error + (Move list \<times> MoveOrder)" where
  "drainWithHash n s =
     (let s1 = generateMoves s in
      if mgStage s1 = STAGE_HASH_MOVE then
        (case nextMove s1 of
           Inl e \<Rightarrow> Inl e
         | Inr (m, s2) \<Rightarrow>
             (case drain n (generateMoves s2) of
                Inl e \<Rightarrow> Inl e
              | Inr (ms, s3) \<Rightarrow> Inr (m # ms, s3)))
      else drain n s1)"

text \<open>Any sequence of calls of the two public operations, with the states it goes through.\<close>

datatype call = GenerateMoves | NextMove

fun run :: "call list \<Rightarrow> MoveOrder \<Rightarrow> error + MoveOrder list" where
  "run [] s = Inr []"
| "run (GenerateMoves # cs) s =
     (case run cs (generateMoves s) of
        Inl e \<Rightarrow> Inl e
      | Inr tr \<Rightarrow> Inr (generateMoves s # tr))"
| "run (NextMove # cs) s =
     (case nextMove s of
        Inl e \<Rightarrow> Inl e
      | Inr (m, s') \<Rightarrow> (case run cs s' of Inl e \<Rightarrow> Inl e | Inr tr \<Rightarrow> Inr (s' # tr)))"

definition stageRank :: "MoveGenStage \<Rightarrow> nat" where
  "stageRank st = (case st of STAGE_NONE \<Rightarrow> 0 | STAGE_HASH_MOVE \<Rightarrow> 1
                            | STAGE_CAPTURES \<Rightarrow> 2 | STAGE_QUIETS \<Rightarrow> 3)"

text \<open>\<open>x\<close> occurs in \<open>ms\<close> before the first occurrence of \<open>y\<close>.\<close>

definition pulledBefore :: "Move \<Rightarrow> Move \<Rightarrow> Move list \<Rightarrow> bool" where
  "pulledBefore x y ms = (x \<in> set (takeWhile (\<lambda>m. m \<noteq> y) ms))"

section \<open>The example node of the spec\<close>

text \<open>
  The legal moves are the predicted move \<open>ex_H\<close>, the capture \<open>ex_C1\<close> with SEE 200, the
  capture \<open>ex_C2\<close> with SEE -50, the quiet move \<open>ex_K\<close> that is the first killer of the
  ply, and the quiet move \<open>ex_Q\<close> with history weight 0. The list has the captures
  first, as \<open>findQuietStart\<close> expects. The node is a principal-variation node of depth 6
  and side 0; \<open>w\<close> is the main-history weight of the key of \<open>ex_K\<close>, every other weight is
  0, and there is no counter-move or follow-up table.
\<close>

definition ex_H :: Move where
  "ex_H = Move 12 28 0 False"

definition ex_C1 :: Move where
  "ex_C1 = Move 27 36 0 True"

definition ex_C2 :: Move where
  "ex_C2 = Move 5 33 0 True"

definition ex_K :: Move where
  "ex_K = Move 6 21 0 False"

definition ex_Q :: Move where
  "ex_Q = Move 1 18 0 False"

definition ex_board :: Board where
  "ex_board =
     \<lparr> getSEEForMove = (\<lambda>c m. if m = ex_C1 then 200 else if m = ex_C2 then - 50 else 0),
       getMVVLVAScore = (\<lambda>c m. 0),
       getExchangeScore = (\<lambda>c m. 0),
       getPieceOnSquare = (\<lambda>c sq. if sq = 6 \<or> sq = 1 then 1 else if sq = 5 then 2 else 0) \<rparr>"

definition ex_params :: "int \<Rightarrow> SearchParameters" where
  "ex_params w =
     \<lparr> killers = (\<lambda>p k. if p = 3 \<and> k = 0 then ex_K else NULL_MOVE),
       historyTable = (\<lambda>c p e. if c = 0 \<and> p = 1 \<and> e = 21 then w else 0) \<rparr>"

definition ex_stack :: SearchStackInfo where
  "ex_stack = \<lparr> ply = 3, counterMoveHistory = None, followupMoveHistory = None \<rparr>"

definition ex_node :: "int \<Rightarrow> MoveOrder" where
  "ex_node w = MoveOrder_new ex_board 0 6 True (ex_params w) ex_stack ex_H
                 [ex_C1, ex_C2, ex_H, ex_K, ex_Q]"

text \<open>A node without predicted move whose only legal move is the winning capture.\<close>

definition ex_single :: MoveOrder where
  "ex_single = MoveOrder_new ex_board 0 6 True (ex_params 0) ex_stack NULL_MOVE [ex_C1]"

text \<open>A node with the predicted move \<open>ex_H\<close> and one other legal move, the quiet \<open>ex_Q\<close>.\<close>

definition ex_pair :: MoveOrder where
  "ex_pair = MoveOrder_new ex_board 0 6 True (ex_params 0) ex_stack ex_H [ex_H, ex_Q]"

text \<open>A node without predicted move and without legal moves, after two generation steps.\<close>

definition ex_empty :: MoveOrder where
  "ex_empty =
     generateMoves (generateMoves
       (MoveOrder_new ex_board 0 6 True (ex_params 0) ex_stack NULL_MOVE []))"

section \<open>Notions used in the statements\<close>

text \<open>
  The stage that the claimed chain NONE, HASH_MOVE, CAPTURES, QUIETS prescribes after one
  generation step: HASH_MOVE is skipped when there is no predicted move, and QUIETS is
  followed by itself.
\<close>

definition nextStage :: "MoveOrder \<Rightarrow> MoveGenStage" where
  "nextStage s =
     (case mgStage s of
        STAGE_NONE \<Rightarrow> if hashed s \<noteq> NULL_MOVE then STAGE_HASH_MOVE else STAGE_CAPTURES
      | STAGE_HASH_MOVE \<Rightarrow> STAGE_CAPTURES
      | STAGE_CAPTURES \<Rightarrow> STAGE_QUIETS
      | STAGE_QUIETS \<Rightarrow> STAGE_QUIETS)"

text \<open>
  The relation between the cursor, the score list and the move list that holds in every
  state reached from the constructor: nothing is scored before the capture stage, the
  captures alone are scored in it, and every move is scored in the last stage.
\<close>

definition wf :: "MoveOrder \<Rightarrow> bool" where
  "wf s = (index s \<le> length (scores s) \<and>
     (case mgStage s of
        STAGE_NONE \<Rightarrow> scores s = []
      | STAGE_HASH_MOVE \<Rightarrow> scores s = []
      | STAGE_CAPTURES \<Rightarrow>
          length (scores s) = quietStart s \<and> quietStart s \<le> length (legalMoves s)
      | STAGE_QUIETS \<Rightarrow> length (scores s) = length (legalMoves s)))"

text \<open>The state in which the \<open>while\<close> loop of \<open>nextMove\<close> is left.\<close>

function refill :: "MoveOrder \<Rightarrow> MoveOrder" where
  "refill s =
     (if index s \<ge> length (scores s) \<and> mgStage s \<noteq> STAGE_QUIETS
      then refill (generateMoves s) else s)"
  by pat_completeness auto
termination
  by (relation "measure (\<lambda>s. case mgStage s of STAGE_NONE \<Rightarrow> 3 | STAGE_HASH_MOVE \<Rightarrow> 2
                                | STAGE_CAPTURES \<Rightarrow> Suc 0 | STAGE_QUIETS \<Rightarrow> 0)")
     (auto simp: generateMoves_def scoreCaptures_def scoreQuiets_def findQuietStart_def
           split: MoveGenStage.splits option.splits)

text \<open>The state that \<open>pickBest\<close> returns when its reads are in range.\<close>

definition picked :: "MoveOrder \<Rightarrow> MoveOrder" where
  "picked s =
     (let s1 = s\<lparr>legalMoves := swap (fst (findBest s)) (index s) (legalMoves s),
                  scores := swap (fst (findBest s)) (index s) (scores s)\<rparr>;
          s2 = (if mgStage s1 = STAGE_CAPTURES \<and> snd (findBest s) < SCORE_WINNING_CAPTURE
                then generateMoves s1 else s1)
      in s2\<lparr>index := index s2 + 1\<rparr>)"

text \<open>
  A state of the two scoring stages of a node whose moves do not include the sentinel.
\<close>

definition ready :: "MoveOrder \<Rightarrow> bool" where
  "ready s = (wf s \<and> (mgStage s = STAGE_CAPTURES \<or> mgStage s = STAGE_QUIETS)
               \<and> NULL_MOVE \<notin> set (legalMoves s))"

text \<open>
  The order in which the move generator is expected to deliver the legal moves: no
  capture after a non-capture.
\<close>

definition capturesFirst :: "Move list \<Rightarrow> bool" where
  "capturesFirst ms = list_all (\<lambda>m. \<not> isCapture m) (dropWhile isCapture ms)"

text \<open>
  What selection keeps true of two captures \<open>m1\<close> and \<open>m2\<close> with the scores \<open>a\<close> and \<open>c\<close>:
  wherever one of them stands in the list it is scored, with its own score; \<open>m1\<close> is in
  the list; and before every \<open>m2\<close> among the moves already returned there is an \<open>m1\<close>.
\<close>

definition winnerAhead :: "int \<Rightarrow> int \<Rightarrow> Move \<Rightarrow> Move \<Rightarrow> MoveOrder \<Rightarrow> bool" where
  "winnerAhead a c m1 m2 s =
     ((\<forall>p<length (legalMoves s). legalMoves s ! p = m1 \<longrightarrow>
          p < length (scores s) \<and> scores s ! p = a)
      \<and> (\<forall>p<length (legalMoves s). legalMoves s ! p = m2 \<longrightarrow>
          p < length (scores s) \<and> scores s ! p = c)
      \<and> (\<forall>i<index s. legalMoves s ! i = m2 \<longrightarrow> (\<exists>k<i. legalMoves s ! k = m1))
      \<and> m1 \<in> set (legalMoves s))"

text \<open>
  Two principal-variation nodes whose legal moves are the winning capture \<open>ex_C1\<close> and
  the losing capture \<open>ex_C2\<close>: the first predicts \<open>ex_C1\<close>, the second \<open>ex_C2\<close>.
\<close>

definition ex_caps1 :: MoveOrder where
  "ex_caps1 = MoveOrder_new ex_board 0 6 True (ex_params 0) ex_stack ex_C1 [ex_C1, ex_C2]"

definition ex_caps2 :: MoveOrder where
  "ex_caps2 = MoveOrder_new ex_board 0 6 True (ex_params 0) ex_stack ex_C2 [ex_C1, ex_C2]"

text \<open>
  A node without predicted move whose list does not have the captures first: the losing
  capture, the quiet move, the winning capture.
\<close>

definition ex_mixed :: MoveOrder where
  "ex_mixed = MoveOrder_new ex_board 0 6 True (ex_params 0) ex_stack NULL_MOVE
                [ex_C2, ex_Q, ex_C1]"

section \<open>History update: what a call changes\<close>

lemma touchHistories_main:
  "historyTable (searchParams (touchHistories f m s)) c p e =
     (if c = color s \<and> p = getPieceOnSquare (b s) (color s) (getStartSq m) \<and> e = getEndSq m
      then f (historyTable (searchParams s) c p e) else historyTable (searchParams s) c p e)"
  by (simp add: touchHistories_def Let_def)

lemma touchHistories_counter:
  "counterMoveHistory (ssi (touchHistories f m s)) =
     map_option (\<lambda>t p e. if p = getPieceOnSquare (b s) (color s) (getStartSq m) \<and> e = getEndSq m
                          then f (t p e) else t p e) (counterMoveHistory (ssi s))"
  by (cases "counterMoveHistory (ssi s)") (auto simp add: touchHistories_def Let_def fun_eq_iff)

lemma touchHistories_followup:
  "followupMoveHistory (ssi (touchHistories f m s)) =
     map_option (\<lambda>t p e. if p = getPieceOnSquare (b s) (color s) (getStartSq m) \<and> e = getEndSq m
                          then f (t p e) else t p e) (followupMoveHistory (ssi s))"
  by (cases "followupMoveHistory (ssi s)") (auto simp add: touchHistories_def Let_def fun_eq_iff)

lemmas ex_defs =
  ex_node_def MoveOrder_new_def ex_H_def ex_C1_def ex_C2_def ex_K_def ex_Q_def
  ex_board_def ex_params_def ex_stack_def NULL_MOVE_def QUEENS_def

lemmas score_defs =
  SCORE_WINNING_CAPTURE_def SCORE_EVEN_CAPTURE_def SCORE_LOSING_CAPTURE_def
  SCORE_QUIET_MOVE_def SCORE_QUEEN_PROMO_def int32_def

lemmas step_defs =
  drainWithHash_def generateMoves_def nextMove_def nextMoveLoop.simps findQuietStart_def scoreCaptures_def
  scoreQuiets_def captureScore_def quietScore_def pickBest_def findBest_def remove_def
  swap_def

section \<open>findQuietStart\<close>

lemma findQuietStart_frame:
  "mgStage (findQuietStart s) = mgStage s"
  "legalMoves (findQuietStart s) = legalMoves s"
  "scores (findQuietStart s) = scores s"
  "index (findQuietStart s) = index s"
  "hashed (findQuietStart s) = hashed s"
  by (simp_all add: findQuietStart_def split: option.splits)

lemma findQuietStart_le: "quietStart (findQuietStart s) \<le> length (legalMoves s)"
  by (auto simp: findQuietStart_def find_Some_iff split: option.splits)

lemma findQuietStart_below:
  "i < quietStart (findQuietStart s) \<Longrightarrow> isCapture (legalMoves s ! i)"
  by (auto simp: findQuietStart_def find_Some_iff find_None_iff in_set_conv_nth split: option.splits)

lemma findQuietStart_at:
  "quietStart (findQuietStart s) < length (legalMoves s) \<Longrightarrow>
   \<not> isCapture (legalMoves s ! quietStart (findQuietStart s))"
proof (cases "find (\<lambda>i. \<not> isCapture (legalMoves s ! i)) [0..<length (legalMoves s)]")
  case None
  assume "quietStart (findQuietStart s) < length (legalMoves s)"
  with None show ?thesis by (simp add: findQuietStart_def)
next
  case (Some i)
  then have "quietStart (findQuietStart s) = i" by (simp add: findQuietStart_def)
  moreover from Some have "\<not> isCapture (legalMoves s ! i)" by (auto simp: find_Some_iff)
  ultimately show ?thesis by simp
qed

lemma findQuietStart_takeWhile:
  "quietStart (findQuietStart s) = length (takeWhile isCapture (legalMoves s))"
proof -
  let ?q = "quietStart (findQuietStart s)"
  have "takeWhile isCapture (legalMoves s) = take ?q (legalMoves s)"
    by (rule takeWhile_eq_take_P_nth) (auto simp: findQuietStart_below findQuietStart_at)
  then show ?thesis using findQuietStart_le [of s] by simp
qed

section \<open>generateMoves\<close>

lemma generateMoves_stage: "mgStage (generateMoves s) = nextStage s"
  by (simp add: generateMoves_def nextStage_def scoreCaptures_def findQuietStart_frame scoreQuiets_def
      split: MoveGenStage.splits option.splits)

lemma generateMoves_QUIETS: "mgStage s = STAGE_QUIETS \<Longrightarrow> generateMoves s = s"
  by (simp add: generateMoves_def)

lemma generateMoves_index: "index (generateMoves s) = index s"
  by (simp add: generateMoves_def scoreCaptures_def findQuietStart_frame scoreQuiets_def
      split: MoveGenStage.splits option.splits)

lemma generateMoves_hashed: "hashed (generateMoves s) = hashed s"
  by (simp add: generateMoves_def scoreCaptures_def findQuietStart_frame scoreQuiets_def
      split: MoveGenStage.splits option.splits)

lemma stageRank_nextStage: "stageRank (mgStage s) \<le> stageRank (nextStage s)"
  by (simp add: nextStage_def stageRank_def split: MoveGenStage.splits)

lemma wf_generateMoves: "wf s \<Longrightarrow> wf (generateMoves s)"
  by (auto simp: wf_def generateMoves_def scoreCaptures_def findQuietStart_frame scoreQuiets_def
        findQuietStart_le split: MoveGenStage.splits option.splits)


section \<open>refill\<close>

declare refill.simps [simp del]
declare nextMoveLoop.simps [simp del]

lemma nextMoveLoop_refill:
  "nextMoveLoop s =
     (if index (refill s) \<ge> length (scores (refill s)) then Inr (NULL_MOVE, refill s)
      else pickBest (refill s))"
proof (induction s rule: refill.induct)
  case (1 s)
  show ?case
  proof (cases "index s \<ge> length (scores s) \<and> mgStage s \<noteq> STAGE_QUIETS")
    case True
    then have "nextMoveLoop s = nextMoveLoop (generateMoves s)"
      by (subst nextMoveLoop.simps) simp
    moreover from True have "refill s = refill (generateMoves s)"
      by (subst refill.simps) simp
    ultimately show ?thesis using 1 True by simp
  next
    case False
    then have r: "refill s = s" by (subst refill.simps) auto
    from False show ?thesis unfolding r
      by (subst nextMoveLoop.simps) auto
  qed
qed

lemma refill_exhausted:
  "index (refill s) \<ge> length (scores (refill s)) \<Longrightarrow> mgStage (refill s) = STAGE_QUIETS"
proof (induction s rule: refill.induct)
  case (1 s)
  show ?case
  proof (cases "index s \<ge> length (scores s) \<and> mgStage s \<noteq> STAGE_QUIETS")
    case True
    then have "refill s = refill (generateMoves s)" by (subst refill.simps) simp
    then show ?thesis using 1 True by simp
  next
    case False
    then have r: "refill s = s" by (subst refill.simps) auto
    from False 1(2) show ?thesis unfolding r by auto
  qed
qed

lemma refill_induct_rule [consumes 0, case_names stop step]:
  assumes stop: "\<And>s. \<not> (index s \<ge> length (scores s) \<and> mgStage s \<noteq> STAGE_QUIETS) \<Longrightarrow> P s s"
    and step: "\<And>s. index s \<ge> length (scores s) \<Longrightarrow> mgStage s \<noteq> STAGE_QUIETS \<Longrightarrow>
                 P (generateMoves s) (refill (generateMoves s)) \<Longrightarrow> P s (refill (generateMoves s))"
  shows "P s (refill s)"
proof (induction s rule: refill.induct)
  case (1 s)
  show ?case
  proof (cases "index s \<ge> length (scores s) \<and> mgStage s \<noteq> STAGE_QUIETS")
    case True
    then have r: "refill s = refill (generateMoves s)" by (subst refill.simps) simp
    show ?thesis unfolding r using step True 1 by blast
  next
    case False
    then have r: "refill s = s" by (subst refill.simps) auto
    show ?thesis unfolding r using stop False by blast
  qed
qed

lemma refill_stage: "stageRank (mgStage s) \<le> stageRank (mgStage (refill s))"
proof (induction rule: refill_induct_rule)
  case (stop s) show ?case by simp
next
  case (step s)
  then show ?case using stageRank_nextStage [of s] by (simp add: generateMoves_stage)
qed

lemma refill_index: "index (refill s) = index s"
  by (induction rule: refill_induct_rule) (simp_all add: generateMoves_index)

lemma refill_hashed: "hashed (refill s) = hashed s"
  by (induction rule: refill_induct_rule) (simp_all add: generateMoves_hashed)

lemma wf_refill: "wf s \<Longrightarrow> wf (refill s)"
  by (induction rule: refill_induct_rule) (simp_all add: wf_generateMoves)

lemma refill_QUIETS: "mgStage s = STAGE_QUIETS \<Longrightarrow> refill s = s"
  by (subst refill.simps) simp

section \<open>findBest\<close>

lemma fold_best:
  "bs = (sc :: int list) ! bi \<Longrightarrow>
   (case fold (\<lambda>i (bestIndex, bestScore).
                 if sc ! i > bestScore then (i, sc ! i) else (bestIndex, bestScore)) js (bi, bs)
    of (bi', bs') \<Rightarrow>
      bs' = sc ! bi' \<and> bi' \<in> insert bi (set js) \<and> bs \<le> bs' \<and> (\<forall>i\<in>set js. sc ! i \<le> bs'))"
proof (induction js arbitrary: bi bs)
  case Nil
  then show ?case by simp
next
  case (Cons j js)
  show ?case
  proof (cases "sc ! j > bs")
    case True
    from Cons.IH [of "sc ! j" j] True show ?thesis
      by (auto split: prod.splits)
  next
    case False
    from Cons.IH [OF Cons.prems] False show ?thesis
      by (auto split: prod.splits)
  qed
qed

lemma findBest_props:
  assumes "index s < length (scores s)"
  shows "index s \<le> fst (findBest s)" "fst (findBest s) < length (scores s)"
    "snd (findBest s) = scores s ! fst (findBest s)"
    "\<And>i. index s \<le> i \<Longrightarrow> i < length (scores s) \<Longrightarrow> scores s ! i \<le> snd (findBest s)"
proof -
  let ?js = "[index s + 1..<length (scores s)]"
  from fold_best [of "scores s ! index s" "scores s" "index s" ?js]
  have f: "snd (findBest s) = scores s ! fst (findBest s)"
      "fst (findBest s) \<in> insert (index s) (set ?js)"
      "scores s ! index s \<le> snd (findBest s)"
      "\<forall>i\<in>set ?js. scores s ! i \<le> snd (findBest s)"
    by (auto simp: findBest_def split: prod.splits)
  show "snd (findBest s) = scores s ! fst (findBest s)" by (rule f)
  show "index s \<le> fst (findBest s)" using f(2) by auto
  show "fst (findBest s) < length (scores s)" using f(2) assms by auto
  show "\<And>i. index s \<le> i \<Longrightarrow> i < length (scores s) \<Longrightarrow> scores s ! i \<le> snd (findBest s)"
  proof -
    fix i assume "index s \<le> i" "i < length (scores s)"
    then have "i = index s \<or> i \<in> set ?js" by auto
    then show "scores s ! i \<le> snd (findBest s)" using f(3,4) by auto
  qed
qed

section \<open>swap\<close>

lemma length_swap [simp]: "length (swap i j xs) = length xs"
  by (simp add: swap_def)

lemma mset_swap: "i < length xs \<Longrightarrow> j < length xs \<Longrightarrow> mset (swap i j xs) = mset xs"
  by (simp add: swap_def mset_swap)

lemma swap_nth:
  "i < length xs \<Longrightarrow> j < length xs \<Longrightarrow> k < length xs \<Longrightarrow>
   swap i j xs ! k = (if k = j then xs ! i else if k = i then xs ! j else xs ! k)"
  by (simp add: swap_def nth_list_update)

lemma take_swap: "n \<le> i \<Longrightarrow> n \<le> j \<Longrightarrow> take n (swap i j xs) = take n xs"
  by (simp add: swap_def)

section \<open>pickBest\<close>

lemma picked_frame:
  "index (picked s) = Suc (index s)"
  "legalMoves (picked s) = swap (fst (findBest s)) (index s) (legalMoves s)"
  "hashed (picked s) = hashed s"
  "mgStage (picked s) =
     (if mgStage s = STAGE_CAPTURES \<and> snd (findBest s) < SCORE_WINNING_CAPTURE
      then STAGE_QUIETS else mgStage s)"
  "quietStart (picked s) = quietStart s"
  by (simp_all add: picked_def Let_def generateMoves_def scoreQuiets_def)

lemma picked_scores:
  "scores (picked s) =
     swap (fst (findBest s)) (index s) (scores s)
     @ (if mgStage s = STAGE_CAPTURES \<and> snd (findBest s) < SCORE_WINNING_CAPTURE
        then map (\<lambda>i. quietScore s (swap (fst (findBest s)) (index s) (legalMoves s) ! i))
               [quietStart s..<length (legalMoves s)]
        else [])"
  by (simp add: picked_def Let_def generateMoves_def scoreQuiets_def quietScore_def)

lemma pickBest_eq:
  assumes "index s < length (scores s)" "length (scores s) \<le> length (legalMoves s)"
  shows "pickBest s = Inr (legalMoves s ! fst (findBest s), picked s)"
proof -
  from findBest_props [OF assms(1)] assms
  have r: "fst (findBest s) < length (legalMoves s)" "index s < length (legalMoves s)"
    by auto
  have "legalMoves (picked s) ! index s = legalMoves s ! fst (findBest s)"
    using r by (simp add: picked_frame swap_nth)
  moreover have "pickBest s =
      Inr (legalMoves (picked s) ! index s, picked s)"
    using r
    by (simp add: pickBest_def picked_def Let_def case_prod_beta generateMoves_index)
  ultimately show ?thesis by simp
qed

lemma wf_lengths: "wf s \<Longrightarrow> length (scores s) \<le> length (legalMoves s) \<or> mgStage s \<in> {STAGE_NONE, STAGE_HASH_MOVE}"
  by (auto simp: wf_def split: MoveGenStage.splits)

lemma wf_lengths': "wf s \<Longrightarrow> index s < length (scores s) \<Longrightarrow> length (scores s) \<le> length (legalMoves s)"
  by (auto simp: wf_def split: MoveGenStage.splits)

lemma wf_picked: "wf s \<Longrightarrow> index s < length (scores s) \<Longrightarrow> wf (picked s)"
  by (auto simp: wf_def picked_frame picked_scores split: MoveGenStage.splits)

section \<open>nextMove\<close>

lemma nextMove_cases:
  "nextMove s =
     (if mgStage s = STAGE_HASH_MOVE then Inr (hashed s, s)
      else if index (refill s) \<ge> length (scores (refill s)) then Inr (NULL_MOVE, refill s)
      else pickBest (refill s))"
  by (simp add: nextMove_def nextMoveLoop_refill)

lemma wf_nextMove:
  assumes "wf s"
  shows "\<exists>m s'. nextMove s = Inr (m, s') \<and> wf s'"
proof (cases "mgStage s = STAGE_HASH_MOVE")
  case True
  then show ?thesis using assms by (simp add: nextMove_def)
next
  case False
  have w: "wf (refill s)" using assms by (rule wf_refill)
  show ?thesis
  proof (cases "index (refill s) \<ge> length (scores (refill s))")
    case True
    then show ?thesis using False w by (simp add: nextMove_cases)
  next
    case nx: False
    then have i: "index (refill s) < length (scores (refill s))" by simp
    from pickBest_eq [OF i wf_lengths' [OF w i]] wf_picked [OF w i] False nx
    show ?thesis by (simp add: nextMove_cases)
  qed
qed

lemma nextMove_stage:
  assumes "nextMove s = Inr (m, s')"
  shows "stageRank (mgStage s) \<le> stageRank (mgStage s')"
proof (cases "mgStage s = STAGE_HASH_MOVE")
  case True
  then show ?thesis using assms by (auto simp add: nextMove_def)
next
  case False
  show ?thesis
  proof (cases "index (refill s) \<ge> length (scores (refill s))")
    case True
    then show ?thesis using False assms refill_stage [of s] by (auto simp add: nextMove_cases)
  next
    case nx: False
    from assms False nx have p: "pickBest (refill s) = Inr (m, s')"
      by (simp add: nextMove_cases)
    then have "stageRank (mgStage (refill s)) \<le> stageRank (mgStage s')"
      by (auto simp: pickBest_def Let_def generateMoves_def scoreQuiets_def stageRank_def
            split: prod.splits if_splits)
    then show ?thesis using refill_stage [of s] by simp
  qed
qed

section \<open>Operations that stay in the range of int\<close>

lemma int32_id: "- (2 ^ 31) \<le> x \<Longrightarrow> x < 2 ^ 31 \<Longrightarrow> int32 x = x"
  by (simp add: int32_def)

lemma cdiv_nonneg: "0 \<le> x \<Longrightarrow> cdiv x 64 = x div 64"
  by (cases "x = 0") (simp_all add: cdiv_def)

lemma cdiv_neg: "x < 0 \<Longrightarrow> cdiv x 64 = - ((- x) div 64)"
  by (simp add: cdiv_def)

lemma depth_cases:
  "1 \<le> d \<Longrightarrow> d \<le> 12 \<Longrightarrow>
   (d::int) = 1 \<or> d = 2 \<or> d = 3 \<or> d = 4 \<or> d = 5 \<or> d = 6 \<or> d = 7 \<or> d = 8 \<or> d = 9
   \<or> d = 10 \<or> d = 11 \<or> d = 12"
  by arith

text \<open>
  When the product \<open>histDepth * w\<close> is in the range of \<open>int\<close>, no operation of the
  reinforcement wraps around.
\<close>

lemma reinforce_exact:
  assumes "1 \<le> d" "d \<le> 12" "\<bar>d * w\<bar> < 2 ^ 31"
  shows "reinforce d w = w - cdiv (d * w) 64 + d * d"
proof -
  have p: "int32 (d * w) = d * w" using assms(3) by (intro int32_id) auto
  have q: "int32 (d * d) = d * d"
    using depth_cases [OF assms(1,2)] by (elim disjE; simp add: int32_id)
  have r: "- (2 ^ 31) \<le> w - cdiv (d * w) 64 \<and> w - cdiv (d * w) 64 < 2 ^ 31
      \<and> - (2 ^ 31) \<le> w - cdiv (d * w) 64 + d * d \<and> w - cdiv (d * w) 64 + d * d < 2 ^ 31"
  proof (cases "0 \<le> w")
    case True
    then have "0 \<le> d * w" using assms(1) by simp
    then have c: "cdiv (d * w) 64 = (d * w) div 64" by (rule cdiv_nonneg)
    from depth_cases [OF assms(1,2)] assms(3) True show ?thesis
      unfolding c by (elim disjE; simp; arith?)
  next
    case False
    then have "d * w < 0" using assms(1) by (simp add: mult_pos_neg)
    then have c: "cdiv (d * w) 64 = - ((- (d * w)) div 64)" by (rule cdiv_neg)
    from depth_cases [OF assms(1,2)] assms(3) False show ?thesis
      unfolding c by (elim disjE; simp; arith?)
  qed
  then have r1: "int32 (w - cdiv (d * w) 64) = w - cdiv (d * w) 64"
    and r2: "int32 (w - cdiv (d * w) 64 + d * d) = w - cdiv (d * w) 64 + d * d"
    by (simp_all add: int32_id)
  show ?thesis by (simp add: reinforce_def p q r1 r2)
qed

section \<open>Feedback with the cursor at its initial position\<close>

text \<open>
  C3 (as stated, refuted): on the fresh example node the cursor is 0, and feedback for
  the predicted move \<open>ex_H\<close> still changes the main-history weight of its key from 0
  to 36.
\<close>

theorem updateHistories_initial_cursor_changes_table:
  "index (ex_node 0) = 0
   \<and> historyTable (searchParams (ex_node 0)) 0 0 28 = 0
   \<and> map_sum id (\<lambda>s'. historyTable (searchParams s') 0 0 28) (updateHistories (ex_node 0) ex_H)
       = Inr 36"
  by (simp add: updateHistories_def touchHistories_def reinforce_def int32_def cdiv_def ex_defs)

text \<open>
  C3 (amended): with the cursor at 0 the penalty loop is not entered, and the call is
  the reinforcement of the best move alone. In each table that is present the entry of
  the best move's key goes from \<open>w\<close> to \<open>w - d * w / 64 + d * d\<close> with
  \<open>d = min depth 12\<close>; every other entry of the three tables is unchanged.
\<close>

theorem updateHistories_initial_cursor:
  "index s = 0 \<Longrightarrow>
   \<exists>s'. updateHistories s bestMove = Inr s'
     \<and> (\<forall>c p e. historyTable (searchParams s') c p e =
          (if c = color s \<and> p = getPieceOnSquare (b s) (color s) (getStartSq bestMove)
              \<and> e = getEndSq bestMove
           then reinforce (min (depth s) 12) (historyTable (searchParams s) c p e)
           else historyTable (searchParams s) c p e))
     \<and> counterMoveHistory (ssi s') =
          map_option (\<lambda>t p e. if p = getPieceOnSquare (b s) (color s) (getStartSq bestMove)
                                  \<and> e = getEndSq bestMove
                               then reinforce (min (depth s) 12) (t p e) else t p e)
            (counterMoveHistory (ssi s))
     \<and> followupMoveHistory (ssi s') =
          map_option (\<lambda>t p e. if p = getPieceOnSquare (b s) (color s) (getStartSq bestMove)
                                  \<and> e = getEndSq bestMove
                               then reinforce (min (depth s) 12) (t p e) else t p e)
            (followupMoveHistory (ssi s))"
  by (simp add: updateHistories_def Let_def touchHistories_main touchHistories_counter
        touchHistories_followup)

theorem updateHistories_initial_cursor_witness:
  "index (ex_node 5) = 0
   \<and> (\<exists>s'. updateHistories (ex_node 5) ex_K = Inr s'
        \<and> historyTable (searchParams s') 0 1 21 = 41
        \<and> historyTable (searchParams s') 0 1 18 = 0)"
proof -
  have i: "index (ex_node 5) = 0"
    by (simp add: ex_defs)
  from updateHistories_initial_cursor [OF i, of ex_K]
  obtain s' where u: "updateHistories (ex_node 5) ex_K = Inr s'"
    and h: "\<And>c p e. historyTable (searchParams s') c p e =
          (if c = color (ex_node 5)
              \<and> p = getPieceOnSquare (b (ex_node 5)) (color (ex_node 5)) (getStartSq ex_K)
              \<and> e = getEndSq ex_K
           then reinforce (min (depth (ex_node 5)) 12)
                  (historyTable (searchParams (ex_node 5)) c p e)
           else historyTable (searchParams (ex_node 5)) c p e)"
    by blast
  have "historyTable (searchParams s') 0 1 21 = 41"
    by (simp add: h [of 0 1 21] ex_defs reinforce_def int32_def cdiv_def)
  moreover have "historyTable (searchParams s') 0 1 18 = 0"
    by (simp add: h [of 0 1 18] ex_defs)
  ultimately show ?thesis
    using i u by blast
qed

section \<open>The example node: pull order and feedback\<close>

text \<open>
  C4 (as stated, refuted): on the example node, pulling with \<open>nextMove\<close> alone returns
  \<open>ex_C1\<close>, \<open>ex_C2\<close>, \<open>ex_K\<close>, \<open>ex_Q\<close> and never the predicted move; with the hash
  stage driven by the caller the pulls are \<open>ex_H\<close>, \<open>ex_C1\<close>, \<open>ex_C2\<close>, \<open>ex_K\<close>, \<open>ex_Q\<close>.
  Neither is the order \<open>ex_H\<close>, \<open>ex_C1\<close>, \<open>ex_K\<close>, \<open>ex_C2\<close>, \<open>ex_Q\<close>.
\<close>

theorem example_pulls_not_in_claimed_order:
  "map_sum id fst (drain 6 (ex_node 0)) = Inr [ex_C1, ex_C2, ex_K, ex_Q]
   \<and> map_sum id fst (drainWithHash 6 (ex_node 0)) = Inr [ex_H, ex_C1, ex_C2, ex_K, ex_Q]
   \<and> [ex_C1, ex_C2, ex_K, ex_Q] \<noteq> [ex_H, ex_C1, ex_K, ex_C2, ex_Q]
   \<and> [ex_H, ex_C1, ex_C2, ex_K, ex_Q] \<noteq> [ex_H, ex_C1, ex_K, ex_C2, ex_Q]"
  by code_simp

text \<open>
  C4 (amended): on the example node, whatever the history weight \<open>w\<close> of the killer's
  key, the caller that drives the hash stage pulls \<open>ex_H\<close> first and \<open>ex_C1\<close> second,
  then \<open>ex_C2\<close>, \<open>ex_K\<close> and \<open>ex_Q\<close> once each, with \<open>ex_K\<close> before \<open>ex_Q\<close>; pulling with
  \<open>nextMove\<close> alone gives the same without \<open>ex_H\<close>. Nothing is said about the order of
  \<open>ex_K\<close> and \<open>ex_C2\<close>.
\<close>

theorem example_pull_order:
  "(case drainWithHash 6 (ex_node w) of
      Inl e \<Rightarrow> False
    | Inr (ms, s) \<Rightarrow>
        take 2 ms = [ex_H, ex_C1] \<and> length ms = 5 \<and> set (drop 2 ms) = {ex_C2, ex_K, ex_Q}
        \<and> pulledBefore ex_K ex_Q ms)
   \<and> (case drain 6 (ex_node w) of
      Inl e \<Rightarrow> False
    | Inr (ms, s) \<Rightarrow>
        take 1 ms = [ex_C1] \<and> length ms = 4 \<and> set (drop 1 ms) = {ex_C2, ex_K, ex_Q}
        \<and> pulledBefore ex_K ex_Q ms)"
  by (simp add: step_defs ex_defs score_defs pulledBefore_def upt_rec numeral_eq_Suc
        insert_commute)

text \<open>
  C5 (as stated, refuted): after all moves of the example node have been pulled,
  feedback for \<open>ex_K\<close> at depth 6 leaves the weight of the key of \<open>ex_Q\<close> at 0; the
  penalty \<open>w - 6 * w / 64 - 36\<close> would have made it -36.
\<close>

theorem example_feedback_leaves_Q:
  "(case drainWithHash 6 (ex_node 0) of
      Inl e \<Rightarrow> False
    | Inr (ms, s) \<Rightarrow>
        historyTable (searchParams s) 0 1 18 = 0
        \<and> penalise 6 0 = - 36
        \<and> map_sum id (\<lambda>s'. historyTable (searchParams s') 0 1 18) (updateHistories s ex_K)
            = Inr 0)"
  by code_simp

text \<open>
  C5 (amended): after all moves of the example node have been pulled, feedback for
  \<open>ex_K\<close> at depth 6 takes the main-history weight of the key of \<open>ex_K\<close> from \<open>w\<close> to its
  reinforcement, which is \<open>w - 6 * w / 64 + 36\<close> when \<open>6 * w\<close> is in the range of \<open>int\<close>,
  and leaves unchanged the weight of \<open>ex_Q\<close>, which was pulled after \<open>ex_K\<close>, and the
  weights of the captures \<open>ex_C1\<close> and \<open>ex_C2\<close>.
\<close>

theorem example_feedback:
  "(case drainWithHash 6 (ex_node w) of
      Inl e \<Rightarrow> False
    | Inr (ms, s) \<Rightarrow>
        (case updateHistories s ex_K of
           Inl e \<Rightarrow> False
         | Inr s' \<Rightarrow>
             historyTable (searchParams s) 0 1 21 = w
             \<and> historyTable (searchParams s') 0 1 21 = reinforce 6 w
             \<and> (\<bar>6 * w\<bar> < 2 ^ 31 \<longrightarrow>
                  historyTable (searchParams s') 0 1 21 = w - cdiv (6 * w) 64 + 36)
             \<and> historyTable (searchParams s') 0 1 18 = historyTable (searchParams s) 0 1 18
             \<and> historyTable (searchParams s') 0 0 36 = historyTable (searchParams s) 0 0 36
             \<and> historyTable (searchParams s') 0 2 33 = historyTable (searchParams s) 0 2 33))"
proof -
  have e: "\<bar>6 * w\<bar> < 2 ^ 31 \<longrightarrow> reinforce 6 w = w - cdiv (6 * w) 64 + 36"
    using reinforce_exact [of 6 w] by simp
  show ?thesis
    using e
    by (simp add: step_defs ex_defs score_defs upt_rec numeral_eq_Suc updateHistories_def
          touchHistories_def)
qed

text \<open>The amended statement of C5 for the weight 5.\<close>

theorem example_feedback_witness:
  "\<bar>6 * 5\<bar> < (2::int) ^ 31
   \<and> (case drainWithHash 6 (ex_node 5) of
        Inl e \<Rightarrow> False
      | Inr (ms, s) \<Rightarrow>
          (case updateHistories s ex_K of
             Inl e \<Rightarrow> False
           | Inr s' \<Rightarrow>
               historyTable (searchParams s) 0 1 21 = 5
               \<and> historyTable (searchParams s') 0 1 21 = 41
               \<and> historyTable (searchParams s') 0 1 18 = 0))"
proof -
  have r: "\<bar>6 * 5\<bar> < (2::int) ^ 31" by simp
  have c: "(5::int) - cdiv (6 * 5) 64 + 36 = 41" by (simp add: cdiv_def)
  have q: "(case drainWithHash 6 (ex_node 5) of
        Inl e \<Rightarrow> False
      | Inr (ms, s) \<Rightarrow> historyTable (searchParams s) 0 1 18 = 0)"
    by code_simp
  from example_feedback [of 5] r c q show ?thesis
    by (auto split: sum.splits prod.splits)
qed

section \<open>Entering the capture stage\<close>

lemma capturesFirst_after:
  assumes "capturesFirst ms" "length (takeWhile isCapture ms) \<le> i" "i < length ms"
  shows "\<not> isCapture (ms ! i)"
proof -
  let ?q = "length (takeWhile isCapture ms)"
  have "ms ! i = dropWhile isCapture ms ! (i - ?q)"
    using assms(2,3) by (metis add_diff_inverse_nat takeWhile_dropWhile_id nth_append_length_plus not_less)
  moreover have "i - ?q < length (dropWhile isCapture ms)"
    using assms(2,3)
    by (metis (no_types, lifting) diff_less_mono length_append takeWhile_dropWhile_id add_diff_cancel_left')
  ultimately show ?thesis using assms(1)
    by (simp add: capturesFirst_def list_all_length)
qed

lemma generateMoves_to_CAPTURES:
  assumes "mgStage s = STAGE_HASH_MOVE \<or> (mgStage s = STAGE_NONE \<and> hashed s = NULL_MOVE)"
  shows "generateMoves s = scoreCaptures ((findQuietStart s)\<lparr>mgStage := STAGE_CAPTURES\<rparr>)"
  using assms by (auto simp: generateMoves_def)

lemma scoreCaptures_frame:
  "mgStage (scoreCaptures s) = mgStage s"
  "legalMoves (scoreCaptures s) = legalMoves s"
  "quietStart (scoreCaptures s) = quietStart s"
  "index (scoreCaptures s) = index s"
  "hashed (scoreCaptures s) = hashed s"
  by (simp_all add: scoreCaptures_def)

lemma enter_CAPTURES_frame:
  assumes "mgStage s = STAGE_HASH_MOVE \<or> (mgStage s = STAGE_NONE \<and> hashed s = NULL_MOVE)"
  shows "mgStage (generateMoves s) = STAGE_CAPTURES"
    "legalMoves (generateMoves s) = legalMoves s"
    "quietStart (generateMoves s) = quietStart (findQuietStart s)"
  by (simp_all add: generateMoves_to_CAPTURES [OF assms] scoreCaptures_frame findQuietStart_frame
        findQuietStart_def split: option.splits)

text \<open>
  C7 (amended): the generation step that enters the capture stage leaves the move list
  as it is and sets \<open>quietStart\<close> to the index of the first non-capture. Every index below
  it holds a capture, the entry at \<open>quietStart\<close>, if there is one, is not a capture, and
  \<open>quietStart\<close> is the size of the list exactly when every move is a capture. When the
  list has its captures first, every index from \<open>quietStart\<close> on holds a quiet move.
\<close>

theorem quietStart_on_entering_CAPTURES:
  assumes "mgStage s = STAGE_HASH_MOVE \<or> (mgStage s = STAGE_NONE \<and> hashed s = NULL_MOVE)"
  shows "mgStage (generateMoves s) = STAGE_CAPTURES
     \<and> legalMoves (generateMoves s) = legalMoves s
     \<and> quietStart (generateMoves s) = length (takeWhile isCapture (legalMoves s))
     \<and> quietStart (generateMoves s) \<le> length (legalMoves s)
     \<and> (\<forall>i < quietStart (generateMoves s). isCapture (legalMoves s ! i))
     \<and> (quietStart (generateMoves s) < length (legalMoves s) \<longrightarrow>
          \<not> isCapture (legalMoves s ! quietStart (generateMoves s)))
     \<and> (quietStart (generateMoves s) = length (legalMoves s)
          \<longleftrightarrow> list_all isCapture (legalMoves s))
     \<and> (capturesFirst (legalMoves s) \<longrightarrow>
          (\<forall>i. quietStart (generateMoves s) \<le> i \<and> i < length (legalMoves s) \<longrightarrow>
               \<not> isCapture (legalMoves s ! i)))"
proof -
  let ?q = "quietStart (generateMoves s)"
  note f = enter_CAPTURES_frame [OF assms]
  have q: "?q = length (takeWhile isCapture (legalMoves s))"
    by (simp add: f findQuietStart_takeWhile)
  have le: "?q \<le> length (legalMoves s)"
    by (simp add: f findQuietStart_le)
  have below: "\<forall>i < ?q. isCapture (legalMoves s ! i)"
    by (simp add: f findQuietStart_below)
  have at: "?q < length (legalMoves s) \<longrightarrow> \<not> isCapture (legalMoves s ! ?q)"
    using findQuietStart_at [of s] by (simp add: f)
  have all: "?q = length (legalMoves s) \<longleftrightarrow> list_all isCapture (legalMoves s)"
  proof
    assume "?q = length (legalMoves s)"
    with below show "list_all isCapture (legalMoves s)" by (simp add: list_all_length)
  next
    assume "list_all isCapture (legalMoves s)"
    then have "takeWhile isCapture (legalMoves s) = legalMoves s"
      by (simp add: list_all_iff)
    then have "length (takeWhile isCapture (legalMoves s)) = length (legalMoves s)"
      by (rule arg_cong)
    then show "?q = length (legalMoves s)" using q by simp
  qed
  have part: "capturesFirst (legalMoves s) \<longrightarrow>
          (\<forall>i. ?q \<le> i \<and> i < length (legalMoves s) \<longrightarrow> \<not> isCapture (legalMoves s ! i))"
    using capturesFirst_after q by auto
  show ?thesis using f(1,2) q le below at all part by blast
qed

text \<open>
  C7 (as stated, refuted): for the node with the predicted move \<open>ex_H\<close> and the quiet move
  \<open>ex_Q\<close>, the capture stage is entered with the list \<open>[ex_Q]\<close>. None of its moves is a
  capture, and \<open>quietStart\<close> is 0, not the size 1 of the list. For the list with the
  losing capture, the quiet move and the winning capture in this order, \<open>quietStart\<close> is
  1 and index 2 holds a capture.
\<close>

theorem quietStart_without_captures:
  "mgStage ex_pair = STAGE_NONE
   \<and> mgStage (generateMoves ex_pair) = STAGE_HASH_MOVE
   \<and> mgStage (generateMoves (generateMoves ex_pair)) = STAGE_CAPTURES
   \<and> legalMoves (generateMoves (generateMoves ex_pair)) = [ex_Q]
   \<and> \<not> isCapture ex_Q
   \<and> quietStart (generateMoves (generateMoves ex_pair)) = 0
   \<and> length (legalMoves (generateMoves (generateMoves ex_pair))) = 1
   \<and> mgStage (generateMoves ex_mixed) = STAGE_CAPTURES
   \<and> quietStart (generateMoves ex_mixed) = 1
   \<and> isCapture (legalMoves (generateMoves ex_mixed) ! 2)"
  by code_simp

text \<open>The amended statement of C7 at the example node, after the predicted move is removed.\<close>

theorem quietStart_on_entering_CAPTURES_witness:
  "mgStage (generateMoves (ex_node 0)) = STAGE_HASH_MOVE
   \<and> legalMoves (generateMoves (ex_node 0)) = [ex_C1, ex_C2, ex_K, ex_Q]
   \<and> capturesFirst [ex_C1, ex_C2, ex_K, ex_Q]
   \<and> mgStage (generateMoves (generateMoves (ex_node 0))) = STAGE_CAPTURES
   \<and> quietStart (generateMoves (generateMoves (ex_node 0))) = 2
   \<and> isCapture ([ex_C1, ex_C2, ex_K, ex_Q] ! 1)
   \<and> \<not> isCapture ([ex_C1, ex_C2, ex_K, ex_Q] ! 2)
   \<and> \<not> isCapture ([ex_C1, ex_C2, ex_K, ex_Q] ! 3)"
proof -
  have st: "mgStage (generateMoves (ex_node 0)) = STAGE_HASH_MOVE"
    and lm: "legalMoves (generateMoves (ex_node 0)) = [ex_C1, ex_C2, ex_K, ex_Q]"
    by code_simp+
  have cf: "capturesFirst [ex_C1, ex_C2, ex_K, ex_Q]"
    by code_simp
  from st have h: "mgStage (generateMoves (ex_node 0)) = STAGE_HASH_MOVE \<or>
      (mgStage (generateMoves (ex_node 0)) = STAGE_NONE \<and> hashed (generateMoves (ex_node 0)) = NULL_MOVE)"
    by simp
  note t = quietStart_on_entering_CAPTURES [OF h, unfolded lm]
  have c: "mgStage (generateMoves (generateMoves (ex_node 0))) = STAGE_CAPTURES"
    using t by blast
  have "quietStart (generateMoves (generateMoves (ex_node 0)))
          = length (takeWhile isCapture [ex_C1, ex_C2, ex_K, ex_Q])"
    using t by blast
  then have q: "quietStart (generateMoves (generateMoves (ex_node 0))) = 2"
    by (simp add: ex_defs)
  have below: "\<forall>i < quietStart (generateMoves (generateMoves (ex_node 0))).
      isCapture ([ex_C1, ex_C2, ex_K, ex_Q] ! i)"
    using t by blast
  have above: "\<forall>i. quietStart (generateMoves (generateMoves (ex_node 0))) \<le> i
      \<and> i < length [ex_C1, ex_C2, ex_K, ex_Q] \<longrightarrow> \<not> isCapture ([ex_C1, ex_C2, ex_K, ex_Q] ! i)"
    using t cf by blast
  have "isCapture ([ex_C1, ex_C2, ex_K, ex_Q] ! 1)"
    using below [rule_format, of 1] q by simp
  moreover have "\<not> isCapture ([ex_C1, ex_C2, ex_K, ex_Q] ! 2)"
    using above [rule_format, of 2] q by simp
  moreover have "\<not> isCapture ([ex_C1, ex_C2, ex_K, ex_Q] ! 3)"
    using above [rule_format, of 3] q by simp
  ultimately show ?thesis using st lm cf c q by blast
qed

section \<open>The stage machine\<close>

lemma wf_new: "wf (MoveOrder_new bd c d pv sp st h ms)"
  by (simp add: wf_def MoveOrder_new_def)

lemma run_from_wf:
  "wf s \<Longrightarrow>
   \<exists>tr. run cs s = Inr tr \<and> length tr = length cs
        \<and> sorted (map (\<lambda>t. stageRank (mgStage t)) (s # tr))"
proof (induction cs arbitrary: s)
  case Nil
  then show ?case by simp
next
  case (Cons x cs)
  show ?case
  proof (cases x)
    case GenerateMoves
    from Cons.IH [OF wf_generateMoves [OF Cons.prems]]
    obtain tr where tr: "run cs (generateMoves s) = Inr tr" "length tr = length cs"
      "sorted (map (\<lambda>t. stageRank (mgStage t)) (generateMoves s # tr))"
      by blast
    have "stageRank (mgStage s) \<le> stageRank (mgStage (generateMoves s))"
      by (simp add: generateMoves_stage stageRank_nextStage)
    with tr GenerateMoves show ?thesis by fastforce
  next
    case NextMove
    from wf_nextMove [OF Cons.prems]
    obtain m s' where n: "nextMove s = Inr (m, s')" "wf s'" by blast
    from Cons.IH [OF n(2)]
    obtain tr where tr: "run cs s' = Inr tr" "length tr = length cs"
      "sorted (map (\<lambda>t. stageRank (mgStage t)) (s' # tr))"
      by blast
    have "stageRank (mgStage s) \<le> stageRank (mgStage s')"
      using n(1) by (rule nextMove_stage)
    with tr n NextMove show ?thesis by fastforce
  qed
qed

lemma nextMove_QUIETS_end:
  "mgStage s = STAGE_QUIETS \<Longrightarrow> index s \<ge> length (scores s) \<Longrightarrow> nextMove s = Inr (NULL_MOVE, s)"
  by (simp add: nextMove_cases refill_QUIETS)

text \<open>
  C9: the stage only moves forward. A generation step takes the stage to the next one of
  the chain NONE, HASH_MOVE, CAPTURES, QUIETS (HASH_MOVE skipped without a predicted
  move), a call of \<open>nextMove\<close> never lowers the stage, and in QUIETS a generation step
  changes nothing and \<open>nextMove\<close> with nothing left to return reports exhaustion. Every
  sequence of calls of \<open>generateMoves\<close> and \<open>nextMove\<close> on a fresh object runs without a
  read out of range, through states whose stages never decrease.
\<close>

theorem stage_machine_forward:
  "mgStage (generateMoves s) = nextStage s
   \<and> stageRank (mgStage s) \<le> stageRank (mgStage (generateMoves s))
   \<and> (\<forall>m s'. nextMove s = Inr (m, s') \<longrightarrow> stageRank (mgStage s) \<le> stageRank (mgStage s'))
   \<and> (mgStage s = STAGE_QUIETS \<longrightarrow>
        generateMoves s = s
        \<and> (index s \<ge> length (scores s) \<longrightarrow> nextMove s = Inr (NULL_MOVE, s)))
   \<and> (\<forall>cs. \<exists>tr. run cs (MoveOrder_new bd c d pv sp st h ms) = Inr tr
          \<and> length tr = length cs
          \<and> sorted (map (\<lambda>t. stageRank (mgStage t)) (MoveOrder_new bd c d pv sp st h ms # tr)))"
  using nextMove_stage [of s] run_from_wf [OF wf_new, of _ bd c d pv sp st h ms]
  by (simp add: generateMoves_stage stageRank_nextStage generateMoves_QUIETS nextMove_QUIETS_end)

text \<open>
  C9 at a node that has reached QUIETS with nothing to return, and along a sequence of
  calls on the example node.
\<close>

theorem stage_machine_forward_witness:
  "mgStage ex_empty = STAGE_QUIETS
   \<and> generateMoves ex_empty = ex_empty
   \<and> length (scores ex_empty) \<le> index ex_empty
   \<and> nextMove ex_empty = Inr (NULL_MOVE, ex_empty)
   \<and> stageRank (mgStage ex_empty) \<le> stageRank (mgStage ex_empty)
   \<and> (\<exists>tr. run [GenerateMoves, NextMove, GenerateMoves, NextMove, NextMove] (ex_node 0) = Inr tr
         \<and> map mgStage tr = [STAGE_HASH_MOVE, STAGE_HASH_MOVE, STAGE_CAPTURES, STAGE_CAPTURES, STAGE_QUIETS]
         \<and> sorted (map (\<lambda>t. stageRank (mgStage t)) (ex_node 0 # tr)))"
proof -
  have q: "mgStage ex_empty = STAGE_QUIETS" and i: "length (scores ex_empty) \<le> index ex_empty"
    by code_simp+
  note t = stage_machine_forward [of ex_empty ex_board 0 6 True "ex_params 0" ex_stack ex_H
      "[ex_C1, ex_C2, ex_H, ex_K, ex_Q]"]
  from t q i have g: "generateMoves ex_empty = ex_empty"
    and n: "nextMove ex_empty = Inr (NULL_MOVE, ex_empty)"
    by blast+
  from t n have r: "stageRank (mgStage ex_empty) \<le> stageRank (mgStage ex_empty)"
    by blast
  from t obtain tr where
    tr: "run [GenerateMoves, NextMove, GenerateMoves, NextMove, NextMove] (ex_node 0) = Inr tr"
      "sorted (map (\<lambda>t. stageRank (mgStage t)) (ex_node 0 # tr))"
    unfolding ex_node_def by blast
  have "map_sum id (map mgStage)
          (run [GenerateMoves, NextMove, GenerateMoves, NextMove, NextMove] (ex_node 0))
        = Inr [STAGE_HASH_MOVE, STAGE_HASH_MOVE, STAGE_CAPTURES, STAGE_CAPTURES, STAGE_QUIETS]"
    by code_simp
  with tr(1) have "map mgStage tr
      = [STAGE_HASH_MOVE, STAGE_HASH_MOVE, STAGE_CAPTURES, STAGE_CAPTURES, STAGE_QUIETS]"
    by simp
  with tr q g i n r show ?thesis
    by - (intro conjI exI [of _ tr]; assumption)
qed

section \<open>Exhaustion\<close>

lemma set_remove: "set (remove i xs) \<subseteq> set xs"
  by (auto simp: remove_def dest: in_set_takeD in_set_dropD)

lemma generateMoves_moves_subset: "set (legalMoves (generateMoves s)) \<subseteq> set (legalMoves s)"
  by (auto simp: generateMoves_def scoreCaptures_def scoreQuiets_def findQuietStart_frame
        split: MoveGenStage.splits option.splits dest: set_remove [THEN subsetD])

lemma refill_moves_subset: "set (legalMoves (refill s)) \<subseteq> set (legalMoves s)"
proof (induction rule: refill_induct_rule)
  case (stop s)
  show ?case by simp
next
  case (step s)
  then show ?case using generateMoves_moves_subset [of s] by blast
qed

lemma pickBest_member:
  assumes "pickBest s = Inr (m, s')"
  shows "m \<in> set (legalMoves s)"
proof -
  from assms have r: "fst (findBest s) < length (legalMoves s)" "index s < length (legalMoves s)"
    by (auto simp: pickBest_def Let_def case_prod_beta split: if_splits)
  with assms have "m = legalMoves (picked s) ! index s"
    by (auto simp: pickBest_def picked_def Let_def case_prod_beta generateMoves_index)
  then have "m = legalMoves s ! fst (findBest s)"
    using r by (simp add: picked_frame swap_nth)
  then show ?thesis using r by simp
qed

lemma nextMove_NULL:
  assumes "NULL_MOVE \<notin> set (legalMoves s)"
    and "mgStage s = STAGE_HASH_MOVE \<longrightarrow> hashed s \<noteq> NULL_MOVE"
    and "nextMove s = Inr (NULL_MOVE, s')"
  shows "s' = refill s" "length (scores (refill s)) \<le> index (refill s)"
proof -
  from assms(2,3) have nh: "mgStage s \<noteq> STAGE_HASH_MOVE"
    by (auto simp: nextMove_def)
  have ex: "length (scores (refill s)) \<le> index (refill s)"
  proof (rule ccontr)
    assume "\<not> ?thesis"
    with assms(3) nh have "pickBest (refill s) = Inr (NULL_MOVE, s')"
      by (simp add: nextMove_cases)
    then have "NULL_MOVE \<in> set (legalMoves (refill s))" by (rule pickBest_member)
    with refill_moves_subset [of s] assms(1) show False by blast
  qed
  then show "length (scores (refill s)) \<le> index (refill s)" .
  from ex assms(3) nh show "s' = refill s" by (simp add: nextMove_cases)
qed

lemma nextMoves_exhausted:
  "mgStage s = STAGE_QUIETS \<Longrightarrow> length (scores s) \<le> index s \<Longrightarrow>
   nextMoves n s = Inr (replicate n NULL_MOVE, s)"
  by (induction n) (simp_all add: nextMove_QUIETS_end)

text \<open>
  C10 (amended): when the move list does not hold the sentinel and no sentinel is
  pending as hash move, a call of \<open>nextMove\<close> that returns \<open>NULL_MOVE\<close> leaves the cursor
  where it was and the generator in QUIETS with no scored move left. If the call was
  made in QUIETS the state is unchanged; a call made in an earlier stage has run the
  remaining generation steps. Every later call returns \<open>NULL_MOVE\<close> and leaves the
  state unchanged.
\<close>

theorem exhaustion_stable:
  assumes "NULL_MOVE \<notin> set (legalMoves s)"
    and "mgStage s = STAGE_HASH_MOVE \<longrightarrow> hashed s \<noteq> NULL_MOVE"
    and "nextMove s = Inr (NULL_MOVE, s')"
  shows "mgStage s' = STAGE_QUIETS \<and> index s' = index s \<and> length (scores s') \<le> index s'
     \<and> (mgStage s = STAGE_QUIETS \<longrightarrow> s' = s)
     \<and> nextMove s' = Inr (NULL_MOVE, s')
     \<and> (\<forall>n. nextMoves n s' = Inr (replicate n NULL_MOVE, s'))"
proof -
  note r = nextMove_NULL [OF assms]
  have q: "mgStage s' = STAGE_QUIETS"
    using r refill_exhausted [of s] by simp
  have i: "index s' = index s"
    using r by (simp add: refill_index)
  have e: "length (scores s') \<le> index s'"
    using r by simp
  have u: "mgStage s = STAGE_QUIETS \<longrightarrow> s' = s"
    using r by (simp add: refill_QUIETS)
  show ?thesis
    using q i e u nextMove_QUIETS_end [OF q e] nextMoves_exhausted [OF q e] by blast
qed

text \<open>
  C10 (as stated, refuted): at the node whose only move is the winning capture, the
  first call returns the capture and leaves the stage CAPTURES; the second call returns
  \<open>NULL_MOVE\<close> and leaves the stage QUIETS, so the call that reports exhaustion has
  changed the state.
\<close>

theorem exhausting_call_changes_stage:
  "map_sum id fst (nextMove ex_single) = Inr ex_C1
   \<and> map_sum id (\<lambda>(m, s). mgStage s) (nextMove ex_single) = Inr STAGE_CAPTURES
   \<and> map_sum id fst (nextMoves 2 ex_single) = Inr [ex_C1, NULL_MOVE]
   \<and> map_sum id (\<lambda>(ms, s). mgStage s) (nextMoves 2 ex_single) = Inr STAGE_QUIETS
   \<and> STAGE_CAPTURES \<noteq> STAGE_QUIETS"
  by code_simp

text \<open>The amended statement of C10 at the second call on that node.\<close>

theorem exhaustion_stable_witness:
  "NULL_MOVE \<notin> set (legalMoves ex_single)
   \<and> mgStage ex_single \<noteq> STAGE_HASH_MOVE
   \<and> (\<exists>s1 s2. nextMove ex_single = Inr (ex_C1, s1) \<and> nextMove s1 = Inr (NULL_MOVE, s2)
        \<and> mgStage s2 = STAGE_QUIETS \<and> index s2 = index s1
        \<and> nextMoves 3 s2 = Inr ([NULL_MOVE, NULL_MOVE, NULL_MOVE], s2))"
proof -
  have a: "NULL_MOVE \<notin> set (legalMoves ex_single)" and b: "mgStage ex_single \<noteq> STAGE_HASH_MOVE"
    by code_simp+
  have w: "wf ex_single" unfolding ex_single_def by (rule wf_new)
  from wf_nextMove [OF w] obtain m s1 where n1: "nextMove ex_single = Inr (m, s1)" "wf s1"
    by blast
  have "map_sum id fst (nextMove ex_single) = Inr ex_C1" by code_simp
  with n1 have m: "m = ex_C1" by simp
  from wf_nextMove [OF n1(2)] obtain m2 s2 where n2: "nextMove s1 = Inr (m2, s2)" by blast
  have "map_sum id fst (nextMoves 2 ex_single) = Inr [ex_C1, NULL_MOVE]" by code_simp
  with n1 n2 have m2: "m2 = NULL_MOVE" by (simp add: numeral_2_eq_2)
  have "map_sum id (\<lambda>(m, s). (NULL_MOVE \<notin> set (legalMoves s), mgStage s)) (nextMove ex_single)
          = Inr (True, STAGE_CAPTURES)"
    by code_simp
  with n1 have p: "NULL_MOVE \<notin> set (legalMoves s1)" "mgStage s1 = STAGE_HASH_MOVE \<longrightarrow> hashed s1 \<noteq> NULL_MOVE"
    by simp_all
  from exhaustion_stable [OF p n2 [unfolded m2]]
  have "mgStage s2 = STAGE_QUIETS" "index s2 = index s1"
    "nextMoves 3 s2 = Inr (replicate 3 NULL_MOVE, s2)"
    by blast+
  then have "mgStage s2 = STAGE_QUIETS \<and> index s2 = index s1
        \<and> nextMoves 3 s2 = Inr ([NULL_MOVE, NULL_MOVE, NULL_MOVE], s2)"
    by (simp add: numeral_3_eq_3)
  with n1(1) n2 m m2 a b show ?thesis by blast
qed

section \<open>Repeated reinforcement\<close>













section \<open>Pulling all moves\<close>

lemma generateMoves_CAPTURES:
  "mgStage s = STAGE_CAPTURES \<Longrightarrow> generateMoves s = scoreQuiets (s\<lparr>mgStage := STAGE_QUIETS\<rparr>)"
  by (simp add: generateMoves_def)

lemma refill_ready:
  assumes "ready s"
  shows "refill s = (if mgStage s = STAGE_CAPTURES \<and> length (scores s) \<le> index s
                     then generateMoves s else s)"
proof (cases "mgStage s = STAGE_CAPTURES \<and> length (scores s) \<le> index s")
  case True
  then have "refill s = refill (generateMoves s)" by (subst refill.simps) simp
  moreover have "mgStage (generateMoves s) = STAGE_QUIETS"
    using True by (simp add: generateMoves_stage nextStage_def)
  ultimately show ?thesis using True by (simp add: refill_QUIETS)
next
  case False
  with assms have "\<not> (length (scores s) \<le> index s \<and> mgStage s \<noteq> STAGE_QUIETS)"
    by (auto simp: ready_def)
  then have "refill s = s" by (subst refill.simps) auto
  with False show ?thesis by auto
qed

lemma refill_ready_moves: "ready s \<Longrightarrow> legalMoves (refill s) = legalMoves s"
  by (simp add: refill_ready generateMoves_CAPTURES scoreQuiets_def)

lemma ready_refill: "ready s \<Longrightarrow> ready (refill s)"
  unfolding ready_def
  using wf_refill [of s] refill_stage [of s] refill_ready_moves [of s]
  by (auto simp: ready_def refill_ready generateMoves_stage nextStage_def)

lemma set_swap: "i < length xs \<Longrightarrow> j < length xs \<Longrightarrow> set (swap i j xs) = set xs"
  by (metis mset_swap set_mset_mset)

lemma ready_lengths:
  "ready s \<Longrightarrow> index s \<le> length (scores s) \<and> length (scores s) \<le> length (legalMoves s)"
  by (auto simp: ready_def wf_def)

lemma ready_picked:
  assumes "ready s" "index s < length (scores s)"
  shows "ready (picked s)"
proof -
  from findBest_props [OF assms(2)] ready_lengths [OF assms(1)] assms(2)
  have r: "fst (findBest s) < length (legalMoves s)" "index s < length (legalMoves s)"
    by auto
  have "wf (picked s)" using assms by (simp add: ready_def wf_picked)
  moreover have "set (legalMoves (picked s)) = set (legalMoves s)"
    using r by (simp add: picked_frame set_swap)
  ultimately show ?thesis using assms(1) by (auto simp: ready_def picked_frame)
qed

lemma ready_exhausted_iff:
  assumes "ready s"
  shows "length (scores (refill s)) \<le> index (refill s) \<longleftrightarrow> index s = length (legalMoves s)"
proof
  assume e: "length (scores (refill s)) \<le> index (refill s)"
  then have "mgStage (refill s) = STAGE_QUIETS" by (rule refill_exhausted)
  moreover have "wf (refill s)" using ready_refill [OF assms] by (simp add: ready_def)
  ultimately have "length (scores (refill s)) = length (legalMoves (refill s))"
    "index (refill s) \<le> length (scores (refill s))"
    by (simp_all add: wf_def)
  with e show "index s = length (legalMoves s)"
    by (simp add: refill_index refill_ready_moves [OF assms])
next
  assume "index s = length (legalMoves s)"
  with ready_lengths [OF ready_refill [OF assms]]
  show "length (scores (refill s)) \<le> index (refill s)"
    by (simp add: refill_index refill_ready_moves [OF assms])
qed

lemma ready_not_hash: "ready s \<Longrightarrow> mgStage s \<noteq> STAGE_HASH_MOVE"
  by (auto simp: ready_def)

lemma nextMove_ready_end:
  assumes "ready s" "index s = length (legalMoves s)"
  shows "nextMove s = Inr (NULL_MOVE, refill s)"
  using assms ready_exhausted_iff [OF assms(1)] ready_not_hash [OF assms(1)]
  by (simp add: nextMove_cases)

lemma nextMove_ready_pick:
  assumes "ready s" "index s \<noteq> length (legalMoves s)"
  shows "nextMove s =
           Inr (legalMoves s ! fst (findBest (refill s)), picked (refill s))"
    and "index (refill s) < length (scores (refill s))"
proof -
  from assms ready_exhausted_iff [OF assms(1)]
  have i: "index (refill s) < length (scores (refill s))" by simp
  then show "index (refill s) < length (scores (refill s))" .
  have l: "length (scores (refill s)) \<le> length (legalMoves (refill s))"
    using ready_lengths [OF ready_refill [OF assms(1)]] by simp
  from pickBest_eq [OF i l] i ready_not_hash [OF assms(1)]
  show "nextMove s = Inr (legalMoves s ! fst (findBest (refill s)), picked (refill s))"
    by (simp add: nextMove_cases refill_ready_moves [OF assms(1)])
qed

lemma drain_ready:
  assumes Q1: "\<And>t. ready t \<Longrightarrow> Q t \<Longrightarrow> Q (refill t)"
    and Q2: "\<And>t. ready t \<Longrightarrow> Q t \<Longrightarrow> index t < length (scores t) \<Longrightarrow> Q (picked t)"
  shows "ready s \<Longrightarrow> Q s \<Longrightarrow> length (legalMoves s) - index s < fuel \<Longrightarrow>
    \<exists>s'. drain fuel s = Inr (drop (index s) (legalMoves s'), s')
       \<and> ready s' \<and> Q s' \<and> mgStage s' = STAGE_QUIETS
       \<and> index s' = length (legalMoves s')
       \<and> mset (legalMoves s') = mset (legalMoves s)
       \<and> take (index s) (legalMoves s') = take (index s) (legalMoves s)"
proof (induction fuel arbitrary: s)
  case 0
  then show ?case by simp
next
  case (Suc fuel)
  note rs = \<open>ready s\<close>
  show ?case
  proof (cases "index s = length (legalMoves s)")
    case True
    let ?r = "refill s"
    have n: "nextMove s = Inr (NULL_MOVE, ?r)" using rs True by (rule nextMove_ready_end)
    have "length (scores ?r) \<le> index ?r" using ready_exhausted_iff [OF rs] True by simp
    then have q: "mgStage ?r = STAGE_QUIETS" by (rule refill_exhausted)
    have "drain (Suc fuel) s = Inr (drop (index s) (legalMoves ?r), ?r)"
      using n True by (simp add: refill_ready_moves [OF rs])
    then show ?thesis
      using ready_refill [OF rs] Q1 [OF rs Suc.prems(2)] q True
      by (simp add: refill_index refill_ready_moves [OF rs])
  next
    case False
    let ?r = "refill s"
    let ?p = "picked ?r"
    let ?m = "legalMoves s ! fst (findBest ?r)"
    note np = nextMove_ready_pick [OF rs False]
    have rr: "ready ?r" using rs by (rule ready_refill)
    have rp: "ready ?p" using rr np(2) by (rule ready_picked)
    have qp: "Q ?p" using rr Q1 [OF rs Suc.prems(2)] np(2) by (rule Q2)
    have ip: "index ?p = Suc (index s)" by (simp add: picked_frame refill_index)
    have il: "index s < length (legalMoves s)"
      using ready_lengths [OF rs] False by simp
    from findBest_props [OF np(2)] ready_lengths [OF rr]
    have bi: "index s \<le> fst (findBest ?r)" "fst (findBest ?r) < length (legalMoves s)"
      by (simp_all add: refill_index refill_ready_moves [OF rs])
    have lp: "legalMoves ?p = swap (fst (findBest ?r)) (index s) (legalMoves s)"
      by (simp add: picked_frame refill_index refill_ready_moves [OF rs])
    have len: "length (legalMoves ?p) = length (legalMoves s)" by (simp add: lp)
    have mp: "mset (legalMoves ?p) = mset (legalMoves s)"
      using bi il by (simp add: lp mset_swap)
    have tp: "take (index s) (legalMoves ?p) = take (index s) (legalMoves s)"
      using bi by (simp add: lp take_swap)
    have at: "legalMoves ?p ! index s = ?m"
      using bi il by (simp add: lp swap_nth)
    have "?m \<in> set (legalMoves s)" using bi by simp
    then have mn: "?m \<noteq> NULL_MOVE" using rs by (auto simp: ready_def)
    have "length (legalMoves ?p) - index ?p < fuel"
      using Suc.prems(3) il by (simp add: len ip)
    from Suc.IH [OF rp qp this]
    obtain s' where s': "drain fuel ?p = Inr (drop (index ?p) (legalMoves s'), s')"
      "ready s'" "Q s'" "mgStage s' = STAGE_QUIETS" "index s' = length (legalMoves s')"
      "mset (legalMoves s') = mset (legalMoves ?p)"
      "take (index ?p) (legalMoves s') = take (index ?p) (legalMoves ?p)"
      by blast
    have len': "length (legalMoves s') = length (legalMoves s)"
      using s'(6) mp by (metis size_mset)
    have "legalMoves s' ! index s = legalMoves ?p ! index s"
      using s'(7) unfolding ip by (metis lessI nth_take)
    then have hd: "legalMoves s' ! index s = ?m" using at by simp
    have "?m # drop (Suc (index s)) (legalMoves s') = drop (index s) (legalMoves s')"
      using il len' hd by (metis Cons_nth_drop_Suc)
    then have d: "drain (Suc fuel) s = Inr (drop (index s) (legalMoves s'), s')"
      using np(1) mn s'(1) by (simp add: ip)
    have "take (index s) (legalMoves s') = take (index s) (legalMoves s)"
      using s'(7) tp unfolding ip by (metis le_add2 plus_1_eq_Suc take_take min.absorb1 Suc_leD order_refl)
    with d s' mp show ?thesis by simp
  qed
qed

section \<open>From the constructor to the capture stage\<close>

lemma remove1_first_index:
  "i < length xs \<Longrightarrow> xs ! i = h \<Longrightarrow> \<forall>j<i. xs ! j \<noteq> h \<Longrightarrow>
   remove1 h xs = take i xs @ drop (Suc i) xs"
proof (induction xs arbitrary: i)
  case Nil
  then show ?case by simp
next
  case (Cons x xs)
  show ?case
  proof (cases i)
    case 0
    with Cons.prems show ?thesis by simp
  next
    case (Suc k)
    with Cons.prems have "x \<noteq> h" by auto
    moreover from Suc Cons.prems have "remove1 h xs = take k xs @ drop (Suc k) xs"
      by (intro Cons.IH) auto
    ultimately show ?thesis using Suc by simp
  qed
qed

lemma find_remove1:
  "(case find (\<lambda>i. xs ! i = h) [0..<length xs] of
      Some i \<Rightarrow> remove i xs | None \<Rightarrow> xs) = remove1 h xs"
proof (cases "find (\<lambda>i. xs ! i = h) [0..<length xs]")
  case None
  then have "h \<notin> set xs" by (auto simp: find_None_iff in_set_conv_nth)
  with None show ?thesis by (simp add: remove1_idem)
next
  case (Some i)
  then have "i < length xs" "xs ! i = h" "\<forall>j<i. xs ! j \<noteq> h"
    by (auto simp: find_Some_iff)
  with Some show ?thesis by (simp add: remove_def remove1_first_index)
qed

lemma generateMoves_NONE_hash:
  assumes "mgStage s = STAGE_NONE" "hashed s \<noteq> NULL_MOVE"
  shows "generateMoves s =
           s\<lparr>mgStage := STAGE_HASH_MOVE, legalMoves := remove1 (hashed s) (legalMoves s)\<rparr>"
proof -
  have "generateMoves s =
      s\<lparr>mgStage := STAGE_HASH_MOVE,
        legalMoves := (case find (\<lambda>i. legalMoves s ! i = hashed s) [0..<length (legalMoves s)] of
                         Some i \<Rightarrow> remove i (legalMoves s) | None \<Rightarrow> legalMoves s)\<rparr>"
    using assms by (simp add: generateMoves_def split: option.splits)
  then show ?thesis by (simp only: find_remove1)
qed

lemma ready_enter_CAPTURES:
  assumes "mgStage s = STAGE_HASH_MOVE \<or> (mgStage s = STAGE_NONE \<and> hashed s = NULL_MOVE)"
    and "scores s = []" "index s = 0" "NULL_MOVE \<notin> set (legalMoves s)"
  shows "ready (generateMoves s)" "index (generateMoves s) = 0"
    "legalMoves (generateMoves s) = legalMoves s"
proof -
  have "wf s" using assms by (auto simp: wf_def)
  then have "wf (generateMoves s)" by (rule wf_generateMoves)
  then show "ready (generateMoves s)"
    using enter_CAPTURES_frame [OF assms(1)] assms(4) by (simp add: ready_def)
  show "index (generateMoves s) = 0" using assms(3) by (simp add: generateMoves_index)
  show "legalMoves (generateMoves s) = legalMoves s" by (rule enter_CAPTURES_frame [OF assms(1)])
qed

lemma refill_unscored:
  "scores s = [] \<Longrightarrow> mgStage s \<noteq> STAGE_QUIETS \<Longrightarrow> refill s = refill (generateMoves s)"
  by (subst refill.simps) simp

lemma nextMoveLoop_cong: "refill s = refill t \<Longrightarrow> nextMoveLoop s = nextMoveLoop t"
  by (simp add: nextMoveLoop_refill)

lemma drain_cong: "nextMove s = nextMove t \<Longrightarrow> drain n s = drain n t"
  by (cases n) simp_all

lemma nextMove_fresh_no_hash:
  assumes "mgStage s = STAGE_NONE" "scores s = []" "hashed s = NULL_MOVE"
  shows "nextMove s = nextMove (generateMoves s)"
proof -
  have "refill s = refill (generateMoves s)" using assms by (simp add: refill_unscored)
  then have "nextMoveLoop s = nextMoveLoop (generateMoves s)" by (rule nextMoveLoop_cong)
  moreover have "mgStage (generateMoves s) = STAGE_CAPTURES"
    using assms by (simp add: generateMoves_stage nextStage_def)
  ultimately show ?thesis using assms(1) by (simp add: nextMove_def)
qed

lemma nextMove_fresh_hash:
  assumes "mgStage s = STAGE_NONE" "scores s = []" "hashed s \<noteq> NULL_MOVE"
  shows "nextMove s = nextMove (generateMoves (generateMoves s))"
proof -
  have g: "mgStage (generateMoves s) = STAGE_HASH_MOVE" "scores (generateMoves s) = []"
    using assms by (simp_all add: generateMoves_NONE_hash)
  have "refill s = refill (generateMoves s)" using assms by (simp add: refill_unscored)
  also have "\<dots> = refill (generateMoves (generateMoves s))"
    using g by (simp add: refill_unscored)
  finally have "nextMoveLoop s = nextMoveLoop (generateMoves (generateMoves s))"
    by (rule nextMoveLoop_cong)
  moreover have "mgStage (generateMoves (generateMoves s)) = STAGE_CAPTURES"
    using g by (simp add: generateMoves_stage nextStage_def)
  ultimately show ?thesis using assms(1) by (simp add: nextMove_def)
qed

lemma notin_remove1: "x \<notin> set xs \<Longrightarrow> x \<notin> set (remove1 y xs)"
  by (meson notin_set_remove1)

lemma drain_from_capture_stage:
  assumes "ready s" "index s = 0" "length (legalMoves s) < fuel"
  shows "\<exists>pulls s'. drain fuel s = Inr (pulls, s') \<and> mset pulls = mset (legalMoves s)"
proof -
  have "\<exists>s'. drain fuel s = Inr (drop (index s) (legalMoves s'), s')
       \<and> ready s' \<and> True \<and> mgStage s' = STAGE_QUIETS
       \<and> index s' = length (legalMoves s')
       \<and> mset (legalMoves s') = mset (legalMoves s)
       \<and> take (index s) (legalMoves s') = take (index s) (legalMoves s)"
    using assms by (intro drain_ready [where Q = "\<lambda>_. True"]) simp_all
  then show ?thesis using assms(2) by auto
qed

lemma fresh_facts:
  "mgStage (MoveOrder_new bd c d pv sp st h S) = STAGE_NONE"
  "scores (MoveOrder_new bd c d pv sp st h S) = []"
  "index (MoveOrder_new bd c d pv sp st h S) = 0"
  "hashed (MoveOrder_new bd c d pv sp st h S) = h"
  "legalMoves (MoveOrder_new bd c d pv sp st h S) = S"
  by (simp_all add: MoveOrder_new_def)

lemma hash_stage_facts:
  assumes "mgStage s = STAGE_NONE" "hashed s \<noteq> NULL_MOVE"
  shows "mgStage (generateMoves s) = STAGE_HASH_MOVE"
    "legalMoves (generateMoves s) = remove1 (hashed s) (legalMoves s)"
    "scores (generateMoves s) = scores s" "index (generateMoves s) = index s"
    "hashed (generateMoves s) = hashed s"
  using assms by (simp_all add: generateMoves_NONE_hash)

lemma fresh_pulls:
  assumes "NULL_MOVE \<notin> set S" and "h = NULL_MOVE \<or> h \<in> set S" and "length S < fuel"
  shows "(\<exists>pulls s'. drainWithHash fuel (MoveOrder_new bd c d pv sp st h S) = Inr (pulls, s')
            \<and> mset pulls = mset S
            \<and> (h \<noteq> NULL_MOVE \<longrightarrow> pulls \<noteq> [] \<and> hd pulls = h))
     \<and> (\<exists>pulls s'. drain fuel (MoveOrder_new bd c d pv sp st h S) = Inr (pulls, s')
            \<and> mset pulls = mset (if h = NULL_MOVE then S else remove1 h S))"
proof (cases "h = NULL_MOVE")
  case True
  let ?s = "MoveOrder_new bd c d pv sp st h S"
  let ?c = "generateMoves ?s"
  have e: "mgStage ?s = STAGE_HASH_MOVE \<or> (mgStage ?s = STAGE_NONE \<and> hashed ?s = NULL_MOVE)"
    using True by (simp add: fresh_facts)
  note r = ready_enter_CAPTURES [OF e]
  have rc: "ready ?c" "index ?c = 0" "legalMoves ?c = S"
    using r assms(1) by (simp_all add: fresh_facts)
  from drain_from_capture_stage [OF rc(1,2), of fuel] assms(3) rc(3)
  obtain pulls s' where p: "drain fuel ?c = Inr (pulls, s')" "mset pulls = mset S"
    by auto
  have c: "mgStage ?c = STAGE_CAPTURES" using rc(1) True
    by (simp add: generateMoves_stage nextStage_def fresh_facts)
  have "drainWithHash fuel ?s = drain fuel ?c"
    using c by (simp add: drainWithHash_def Let_def)
  moreover have "drain fuel ?s = drain fuel ?c"
    using True by (intro drain_cong nextMove_fresh_no_hash) (simp_all add: fresh_facts)
  ultimately show ?thesis using p True by simp
next
  case False
  let ?s = "MoveOrder_new bd c d pv sp st h S"
  let ?h = "generateMoves ?s"
  let ?c = "generateMoves ?h"
  have hs: "h \<in> set S" using assms(2) False by simp
  note hf = hash_stage_facts [of ?s, unfolded fresh_facts, OF refl False]
  have e: "mgStage ?h = STAGE_HASH_MOVE \<or> (mgStage ?h = STAGE_NONE \<and> hashed ?h = NULL_MOVE)"
    using hf by simp
  have n: "NULL_MOVE \<notin> set (legalMoves ?h)"
    using assms(1) by (simp add: hf notin_remove1)
  note r = ready_enter_CAPTURES [OF e _ _ n]
  have rc: "ready ?c" "index ?c = 0" "legalMoves ?c = remove1 h S"
    using r by (simp_all add: hf)
  have "length (legalMoves ?c) < fuel"
    using assms(3) hs by (simp add: rc length_remove1)
  from drain_from_capture_stage [OF rc(1,2) this] rc(3)
  obtain pulls s' where p: "drain fuel ?c = Inr (pulls, s')" "mset pulls = mset (remove1 h S)"
    by auto
  have "nextMove ?h = Inr (h, ?h)" using hf by (simp add: nextMove_def)
  then have "drainWithHash fuel ?s = Inr (h # pulls, s')"
    using hf(1) p(1) by (simp add: drainWithHash_def Let_def)
  moreover have "mset (h # pulls) = mset S" using p(2) hs by simp
  moreover have "drain fuel ?s = drain fuel ?c"
    using False by (intro drain_cong nextMove_fresh_hash) (simp_all add: fresh_facts)
  ultimately show ?thesis using p False by simp
qed

text \<open>
  C1 (amended): let the legal moves \<open>S\<close> not hold the sentinel and let the predicted move
  \<open>h\<close> be the sentinel or a member of \<open>S\<close>. A caller that drives the hash stage
  (\<open>generateMoves\<close>, one \<open>nextMove\<close> for the predicted move, \<open>generateMoves\<close> again) and
  then pulls until exhaustion receives every move of \<open>S\<close> exactly once, the predicted
  move first. Pulling with \<open>nextMove\<close> alone from the fresh object also reaches
  exhaustion; it returns every move of \<open>S\<close> exactly once when there is no predicted
  move, and otherwise every move but one occurrence of \<open>h\<close>. More fuel than there are
  moves is enough in both cases.
\<close>

theorem pulls_permutation:
  assumes "NULL_MOVE \<notin> set S" and "h = NULL_MOVE \<or> h \<in> set S" and "length S < fuel"
  shows "(\<exists>pulls s'. drainWithHash fuel (MoveOrder_new bd c d pv sp st h S) = Inr (pulls, s')
            \<and> mset pulls = mset S
            \<and> (h \<noteq> NULL_MOVE \<longrightarrow> pulls \<noteq> [] \<and> hd pulls = h))
     \<and> (\<exists>pulls s'. drain fuel (MoveOrder_new bd c d pv sp st h S) = Inr (pulls, s')
            \<and> mset pulls = mset (if h = NULL_MOVE then S else remove1 h S))"
  using assms by (rule fresh_pulls)

text \<open>
  C1 (as stated, refuted): for the predicted move \<open>ex_H\<close> and the legal moves \<open>ex_H\<close>,
  \<open>ex_Q\<close>, pulling with \<open>nextMove\<close> until exhaustion returns \<open>ex_Q\<close> alone.
\<close>

theorem predicted_move_not_pulled:
  "map_sum id fst (drain 3 ex_pair) = Inr [ex_Q]
   \<and> hashed ex_pair = ex_H \<and> legalMoves ex_pair = [ex_H, ex_Q] \<and> ex_H \<noteq> NULL_MOVE
   \<and> mset [ex_Q] \<noteq> mset [ex_H, ex_Q]"
  by code_simp

text \<open>The amended statement of C1 at the example node.\<close>

theorem pulls_permutation_witness:
  "NULL_MOVE \<notin> set [ex_C1, ex_C2, ex_H, ex_K, ex_Q]
   \<and> ex_H \<in> set [ex_C1, ex_C2, ex_H, ex_K, ex_Q]
   \<and> (\<exists>pulls s'. drainWithHash 6 (ex_node 0) = Inr (pulls, s')
         \<and> mset pulls = mset [ex_C1, ex_C2, ex_H, ex_K, ex_Q] \<and> hd pulls = ex_H)
   \<and> (\<exists>pulls s'. drain 6 (ex_node 0) = Inr (pulls, s')
         \<and> mset pulls = mset [ex_C1, ex_C2, ex_K, ex_Q])"
proof -
  have a: "NULL_MOVE \<notin> set [ex_C1, ex_C2, ex_H, ex_K, ex_Q]"
    and b: "ex_H = NULL_MOVE \<or> ex_H \<in> set [ex_C1, ex_C2, ex_H, ex_K, ex_Q]"
    and n: "ex_H \<noteq> NULL_MOVE"
    and r: "remove1 ex_H [ex_C1, ex_C2, ex_H, ex_K, ex_Q] = [ex_C1, ex_C2, ex_K, ex_Q]"
    by code_simp+
  have f: "length [ex_C1, ex_C2, ex_H, ex_K, ex_Q] < 6" by simp
  from pulls_permutation [OF a b f, of ex_board 0 6 True "ex_params 0" ex_stack] n r
  have "(\<exists>pulls s'. drainWithHash 6 (ex_node 0) = Inr (pulls, s')
         \<and> mset pulls = mset [ex_C1, ex_C2, ex_H, ex_K, ex_Q] \<and> hd pulls = ex_H)
   \<and> (\<exists>pulls s'. drain 6 (ex_node 0) = Inr (pulls, s')
         \<and> mset pulls = mset [ex_C1, ex_C2, ex_K, ex_Q])"
    unfolding ex_node_def by (simp only: if_False) blast
  with a b n show ?thesis by blast
qed

section \<open>The predicted move\<close>

lemma nextMoves_hash_stage:
  "mgStage s = STAGE_HASH_MOVE \<Longrightarrow> nextMoves n s = Inr (replicate n (hashed s), s)"
  by (induction n) (simp_all add: nextMove_def)

text \<open>
  C2 (amended): let the predicted move \<open>h\<close> be a member, not the sentinel, of the legal
  moves \<open>S\<close>, which are distinct and do not hold the sentinel. The caller's first
  \<open>generateMoves\<close> enters HASH_MOVE and removes \<open>h\<close> from the move list; in that stage
  every call of \<open>nextMove\<close> returns \<open>h\<close> and changes nothing. The caller that leaves the
  stage with a second \<open>generateMoves\<close> after one such call receives \<open>h\<close> first and never
  again. Pulling with \<open>nextMove\<close> alone from the fresh object never returns \<open>h\<close>.
\<close>

theorem predicted_move_first:
  assumes "h \<noteq> NULL_MOVE" "h \<in> set S" "distinct S" "NULL_MOVE \<notin> set S" "length S < fuel"
  shows "mgStage (generateMoves (MoveOrder_new bd c d pv sp st h S)) = STAGE_HASH_MOVE
     \<and> legalMoves (generateMoves (MoveOrder_new bd c d pv sp st h S)) = remove1 h S
     \<and> h \<notin> set (remove1 h S)
     \<and> (\<forall>n. nextMoves n (generateMoves (MoveOrder_new bd c d pv sp st h S))
              = Inr (replicate n h, generateMoves (MoveOrder_new bd c d pv sp st h S)))
     \<and> (\<exists>pulls s'. drainWithHash fuel (MoveOrder_new bd c d pv sp st h S) = Inr (h # pulls, s')
            \<and> h \<notin> set pulls)
     \<and> (\<exists>pulls s'. drain fuel (MoveOrder_new bd c d pv sp st h S) = Inr (pulls, s')
            \<and> h \<notin> set pulls)"
proof -
  let ?s = "MoveOrder_new bd c d pv sp st h S"
  let ?h = "generateMoves ?s"
  note hf = hash_stage_facts [of ?s, unfolded fresh_facts, OF refl assms(1)]
  have nh: "h \<notin> set (remove1 h S)" using assms(3) by simp
  have nm: "\<forall>n. nextMoves n ?h = Inr (replicate n h, ?h)"
    using nextMoves_hash_stage [OF hf(1)] by (simp add: hf)
  from fresh_pulls [OF assms(4) disjI2 [OF assms(2)] assms(5), of bd c d pv sp st] assms(1)
  obtain p1 s1 p2 s2 where
    p1: "drainWithHash fuel ?s = Inr (p1, s1)" "mset p1 = mset S" "p1 \<noteq> []" "hd p1 = h"
    and p2: "drain fuel ?s = Inr (p2, s2)" "mset p2 = mset (remove1 h S)"
    by auto
  from p1(3,4) obtain t where t: "p1 = h # t" by (cases p1) auto
  with p1(2) have "mset t = mset (remove1 h S)" 
    by (metis mset_remove1 remove1.simps(2))
  then have "h \<notin> set t" using nh by (metis set_mset_mset)
  moreover have "h \<notin> set p2" using p2(2) nh by (metis set_mset_mset)
  ultimately show ?thesis using hf(1,2) nh nm p1(1) p2(1) t by blast
qed

text \<open>
  C2 (as stated, refuted): for the predicted move \<open>ex_H\<close> and the legal moves \<open>ex_H\<close>,
  \<open>ex_Q\<close>, the first move that \<open>nextMove\<close> returns on the fresh object is \<open>ex_Q\<close>.
\<close>

theorem first_pull_not_predicted:
  "hashed ex_pair = ex_H \<and> ex_H \<noteq> NULL_MOVE \<and> ex_H \<in> set (legalMoves ex_pair)
   \<and> map_sum id fst (nextMove ex_pair) = Inr ex_Q
   \<and> ex_Q \<noteq> ex_H"
  by code_simp

text \<open>The amended statement of C2 at that node.\<close>

theorem predicted_move_first_witness:
  "ex_H \<noteq> NULL_MOVE \<and> ex_H \<in> set [ex_H, ex_Q] \<and> distinct [ex_H, ex_Q]
   \<and> NULL_MOVE \<notin> set [ex_H, ex_Q]
   \<and> mgStage (generateMoves ex_pair) = STAGE_HASH_MOVE
   \<and> legalMoves (generateMoves ex_pair) = [ex_Q]
   \<and> nextMoves 2 (generateMoves ex_pair) = Inr ([ex_H, ex_H], generateMoves ex_pair)
   \<and> (\<exists>pulls s'. drainWithHash 3 ex_pair = Inr (ex_H # pulls, s') \<and> ex_H \<notin> set pulls)"
proof -
  have a: "ex_H \<noteq> NULL_MOVE" and b: "ex_H \<in> set [ex_H, ex_Q]" and c: "distinct [ex_H, ex_Q]"
    and d: "NULL_MOVE \<notin> set [ex_H, ex_Q]"
    and r: "remove1 ex_H [ex_H, ex_Q] = [ex_Q]"
    by code_simp+
  have f: "length [ex_H, ex_Q] < 3" by simp
  note t = predicted_move_first [OF a b c d f, of ex_board 0 6 True "ex_params 0" ex_stack,
      folded ex_pair_def, unfolded r]
  from t have "nextMoves 2 (generateMoves ex_pair) = Inr (replicate 2 ex_H, generateMoves ex_pair)"
    by blast
  then have "nextMoves 2 (generateMoves ex_pair) = Inr ([ex_H, ex_H], generateMoves ex_pair)"
    by (simp add: numeral_2_eq_2)
  with t a b c d show ?thesis by blast
qed

section \<open>Winning captures before losing captures\<close>

lemma winnerAhead_refill:
  assumes "ready t" "winnerAhead a c m1 m2 t"
  shows "winnerAhead a c m1 m2 (refill t)"
proof (cases "mgStage t = STAGE_CAPTURES \<and> length (scores t) \<le> index t")
  case False
  then have "refill t = t" using assms(1) by (auto simp: refill_ready)
  then show ?thesis using assms(2) by simp
next
  case True
  then have r: "refill t = scoreQuiets (t\<lparr>mgStage := STAGE_QUIETS\<rparr>)"
    using assms(1) by (simp add: refill_ready generateMoves_CAPTURES)
  show ?thesis using assms(2) unfolding r winnerAhead_def
    by (auto simp: scoreQuiets_def nth_append)
qed

lemma winnerAhead_picked:
  assumes "ready t" "winnerAhead a c m1 m2 t" "index t < length (scores t)" "c < a"
  shows "winnerAhead a c m1 m2 (picked t)"
proof -
  let ?bi = "fst (findBest t)"
  let ?i = "index t"
  let ?lm = "legalMoves t"
  let ?sc = "scores t"
  note fb = findBest_props [OF assms(3)]
  note rl = ready_lengths [OF assms(1)]
  have bl: "?bi < length ?lm" "?i < length ?lm" "?bi < length ?sc"
    using fb(1,2) rl assms(3) by auto
  have lm': "legalMoves (picked t) = swap ?bi ?i ?lm" by (simp add: picked_frame)
  have sc': "\<And>p. p < length ?sc \<Longrightarrow> scores (picked t) ! p = swap ?bi ?i ?sc ! p"
    by (simp add: picked_scores nth_append)
  have scl: "length ?sc \<le> length (scores (picked t))"
    by (simp add: picked_scores)
  \<comment> \<open>the position from which the entry at \<open>p\<close> came\<close>
  define src where "src p = (if p = ?i then ?bi else if p = ?bi then ?i else p)" for p
  have src_lm: "\<And>p. p < length ?lm \<Longrightarrow> swap ?bi ?i ?lm ! p = ?lm ! src p"
    using bl by (simp add: swap_nth src_def)
  have src_sc: "\<And>p. p < length ?sc \<Longrightarrow> swap ?bi ?i ?sc ! p = ?sc ! src p"
    using bl assms(3) by (simp add: swap_nth src_def)
  have src_lt: "\<And>p. p < length ?lm \<Longrightarrow> src p < length ?lm"
    using bl by (simp add: src_def)
  have src_sc_lt: "\<And>p. src p < length ?sc \<Longrightarrow> p < length ?sc"
    using bl assms(3) by (auto simp: src_def split: if_splits)
  have scored: "\<And>m v p. (\<forall>p<length ?lm. ?lm ! p = m \<longrightarrow> p < length ?sc \<and> ?sc ! p = v) \<Longrightarrow>
      p < length (legalMoves (picked t)) \<Longrightarrow> legalMoves (picked t) ! p = m \<Longrightarrow>
      p < length (scores (picked t)) \<and> scores (picked t) ! p = v"
  proof -
    fix m v p
    assume h: "\<forall>p<length ?lm. ?lm ! p = m \<longrightarrow> p < length ?sc \<and> ?sc ! p = v"
      and p: "p < length (legalMoves (picked t))" "legalMoves (picked t) ! p = m"
    from p have pl: "p < length ?lm" by (simp add: lm')
    with p have "?lm ! src p = m" by (simp add: lm' src_lm)
    with h src_lt [OF pl] have s: "src p < length ?sc" "?sc ! src p = v" by auto
    from src_sc_lt [OF s(1)] have ps: "p < length ?sc" .
    with s show "p < length (scores (picked t)) \<and> scores (picked t) ! p = v"
      using scl by (simp add: sc' src_sc)
  qed
  have i1: "\<forall>p<length ?lm. ?lm ! p = m1 \<longrightarrow> p < length ?sc \<and> ?sc ! p = a"
    and i2: "\<forall>p<length ?lm. ?lm ! p = m2 \<longrightarrow> p < length ?sc \<and> ?sc ! p = c"
    and i3: "\<forall>i<?i. ?lm ! i = m2 \<longrightarrow> (\<exists>k<i. ?lm ! k = m1)"
    and i4: "m1 \<in> set ?lm"
    using assms(2) by (simp_all add: winnerAhead_def)
  have below: "\<And>k. k < ?i \<Longrightarrow> legalMoves (picked t) ! k = ?lm ! k"
    using bl fb(1) by (simp add: lm' swap_nth)
  have p3: "\<forall>i<index (picked t). legalMoves (picked t) ! i = m2 \<longrightarrow>
      (\<exists>k<i. legalMoves (picked t) ! k = m1)"
  proof (intro allI impI)
    fix i assume i: "i < index (picked t)" and m: "legalMoves (picked t) ! i = m2"
    show "\<exists>k<i. legalMoves (picked t) ! k = m1"
    proof (cases "i < ?i")
      case True
      with m have "?lm ! i = m2" by (simp add: below)
      with i3 True obtain k where "k < i" "?lm ! k = m1" by blast
      with True show ?thesis using below [of k] by auto
    next
      case False
      with i have ie: "i = ?i" by (simp add: picked_frame)
      with m have "?lm ! ?bi = m2" using bl by (simp add: lm' swap_nth)
      with i2 bl have "?sc ! ?bi = c" by blast
      then have best: "snd (findBest t) = c" using fb(3) by simp
      from i4 obtain p where p: "p < length ?lm" "?lm ! p = m1" by (auto simp: in_set_conv_nth)
      with i1 have ps: "p < length ?sc" "?sc ! p = a" by auto
      have "p < ?i"
      proof (rule ccontr)
        assume "\<not> p < ?i"
        then have "?sc ! p \<le> snd (findBest t)" using fb(4) ps(1) by simp
        with ps(2) best assms(4) show False by simp
      qed
      with p(2) ie show ?thesis using below [of p] by auto
    qed
  qed
  have p4: "m1 \<in> set (legalMoves (picked t))"
    using i4 bl by (simp add: lm' set_swap)
  show ?thesis
    unfolding winnerAhead_def using scored [OF i1] scored [OF i2] p3 p4 by blast
qed

lemma pulledBefore_final:
  assumes "m2 \<in> set xs" "\<forall>i<length xs. xs ! i = m2 \<longrightarrow> (\<exists>k<i. xs ! k = m1)"
  shows "pulledBefore m1 m2 xs"
proof -
  let ?n = "length (takeWhile (\<lambda>m. m \<noteq> m2) xs)"
  have "takeWhile (\<lambda>m. m \<noteq> m2) xs \<noteq> xs" using assms(1) by simp
  then have n: "?n < length xs"
    using length_takeWhile_le [of "\<lambda>m. m \<noteq> m2" xs] takeWhile_eq_take [of "\<lambda>m. m \<noteq> m2" xs]
    by (metis le_neq_implies_less take_all order_refl)
  then have "xs ! ?n = m2" using nth_length_takeWhile [of "\<lambda>m. m \<noteq> m2" xs] by simp
  with assms(2) n obtain k where k: "k < ?n" "xs ! k = m1" by blast
  then have "takeWhile (\<lambda>m. m \<noteq> m2) xs ! k = m1" by (simp add: takeWhile_nth)
  with k(1) show ?thesis unfolding pulledBefore_def by (metis nth_mem)
qed

lemma capturesFirst_quiet: "list_all (\<lambda>m. \<not> isCapture m) ms \<Longrightarrow> capturesFirst ms"
  by (auto simp: capturesFirst_def list_all_iff dest: set_dropWhileD)

lemma capturesFirst_Cons:
  "capturesFirst (x # xs) =
     (if isCapture x then capturesFirst xs else list_all (\<lambda>m. \<not> isCapture m) (x # xs))"
  by (simp add: capturesFirst_def)

lemma capturesFirst_remove1: "capturesFirst ms \<Longrightarrow> capturesFirst (remove1 h ms)"
proof (induction ms)
  case Nil
  then show ?case by simp
next
  case (Cons x xs)
  show ?case
  proof (cases "isCapture x")
    case True
    with Cons show ?thesis by (simp add: capturesFirst_Cons)
  next
    case False
    with Cons.prems have "list_all (\<lambda>m. \<not> isCapture m) (x # xs)"
      by (simp add: capturesFirst_Cons)
    then have "list_all (\<lambda>m. \<not> isCapture m) (remove1 h (x # xs))"
      unfolding list_all_iff using set_remove1_subset by fastforce
    then show ?thesis by (rule capturesFirst_quiet)
  qed
qed

lemma captureScore_PV:
  assumes "isPVNode s" "\<bar>getMVVLVAScore (b s) (color s) m\<bar> < 2 ^ 29"
  shows "0 < getSEEForMove (b s) (color s) m \<Longrightarrow> getSEEForMove (b s) (color s) m < 2 ^ 28 \<Longrightarrow>
         captureScore s m = SCORE_WINNING_CAPTURE + getSEEForMove (b s) (color s) m
                            + getMVVLVAScore (b s) (color s) m"
    and "getSEEForMove (b s) (color s) m < 0 \<Longrightarrow> - (2 ^ 28) < getSEEForMove (b s) (color s) m \<Longrightarrow>
         captureScore s m = SCORE_LOSING_CAPTURE + getSEEForMove (b s) (color s) m
                            + getMVVLVAScore (b s) (color s) m"
proof -
  assume "0 < getSEEForMove (b s) (color s) m" "getSEEForMove (b s) (color s) m < 2 ^ 28"
  then show "captureScore s m = SCORE_WINNING_CAPTURE + getSEEForMove (b s) (color s) m
                            + getMVVLVAScore (b s) (color s) m"
    using assms
    by (simp add: captureScore_def Let_def int32_id SCORE_WINNING_CAPTURE_def)
next
  assume "getSEEForMove (b s) (color s) m < 0" "- (2 ^ 28) < getSEEForMove (b s) (color s) m"
  then show "captureScore s m = SCORE_LOSING_CAPTURE + getSEEForMove (b s) (color s) m
                            + getMVVLVAScore (b s) (color s) m"
    using assms
    by (simp add: captureScore_def Let_def int32_id SCORE_LOSING_CAPTURE_def)
qed

lemma captureScore_cong:
  "isPVNode s = isPVNode t \<Longrightarrow> b s = b t \<Longrightarrow> color s = color t \<Longrightarrow>
   captureScore s m = captureScore t m"
  by (simp add: captureScore_def Let_def)

lemma captureScore_findQuietStart:
  "captureScore ((findQuietStart s)\<lparr>mgStage := st\<rparr>) m = captureScore s m"
  by (rule captureScore_cong) (simp_all add: findQuietStart_def split: option.splits)

lemma scores_enter_CAPTURES:
  assumes "mgStage s = STAGE_HASH_MOVE \<or> (mgStage s = STAGE_NONE \<and> hashed s = NULL_MOVE)"
    and "scores s = []"
  shows "scores (generateMoves s) =
           map (\<lambda>i. captureScore s (legalMoves s ! i))
             [0..<length (takeWhile isCapture (legalMoves s))]"
  using assms(2)
  by (simp add: generateMoves_to_CAPTURES [OF assms(1)] scoreCaptures_def
        captureScore_findQuietStart findQuietStart_frame findQuietStart_takeWhile)

lemma winnerAhead_enter_CAPTURES:
  assumes "mgStage s = STAGE_HASH_MOVE \<or> (mgStage s = STAGE_NONE \<and> hashed s = NULL_MOVE)"
    and "scores s = []" "index s = 0"
    and "capturesFirst (legalMoves s)" "isCapture m1" "isCapture m2" "m1 \<in> set (legalMoves s)"
  shows "winnerAhead (captureScore s m1) (captureScore s m2) m1 m2 (generateMoves s)"
proof -
  let ?L = "legalMoves s"
  let ?q = "length (takeWhile isCapture ?L)"
  have lm: "legalMoves (generateMoves s) = ?L" by (rule enter_CAPTURES_frame [OF assms(1)])
  have sc: "scores (generateMoves s) = map (\<lambda>i. captureScore s (?L ! i)) [0..<?q]"
    by (rule scores_enter_CAPTURES [OF assms(1,2)])
  have ix: "index (generateMoves s) = 0" using assms(3) by (simp add: generateMoves_index)
  have cap: "\<And>p. p < length ?L \<Longrightarrow> isCapture (?L ! p) \<Longrightarrow> p < ?q"
    using capturesFirst_after [OF assms(4)] by (meson not_less)
  show ?thesis
    unfolding winnerAhead_def lm sc ix using cap assms(5,6,7) by auto
qed

lemma drain_order:
  assumes "ready s" "index s = 0" "winnerAhead a c m1 m2 s" "c < a" "m2 \<in> set (legalMoves s)"
    and "length (legalMoves s) < fuel"
  shows "\<exists>pulls s'. drain fuel s = Inr (pulls, s') \<and> m2 \<in> set pulls \<and> pulledBefore m1 m2 pulls"
proof -
  have "\<exists>s'. drain fuel s = Inr (drop (index s) (legalMoves s'), s')
       \<and> ready s' \<and> winnerAhead a c m1 m2 s' \<and> mgStage s' = STAGE_QUIETS
       \<and> index s' = length (legalMoves s')
       \<and> mset (legalMoves s') = mset (legalMoves s)
       \<and> take (index s) (legalMoves s') = take (index s) (legalMoves s)"
    using assms(1,3,6)
    by (intro drain_ready [where Q = "winnerAhead a c m1 m2"]) (simp_all add: winnerAhead_refill winnerAhead_picked assms(4))
  then obtain s' where s': "drain fuel s = Inr (legalMoves s', s')" "winnerAhead a c m1 m2 s'"
    "index s' = length (legalMoves s')" "mset (legalMoves s') = mset (legalMoves s)"
    using assms(2) by auto
  have m: "m2 \<in> set (legalMoves s')" using s'(4) assms(5) by (metis set_mset_mset)
  have "\<forall>i<length (legalMoves s'). legalMoves s' ! i = m2 \<longrightarrow> (\<exists>k<i. legalMoves s' ! k = m1)"
    using s'(2,3) by (simp add: winnerAhead_def)
  with m have "pulledBefore m1 m2 (legalMoves s')" by (rule pulledBefore_final)
  with s'(1) m show ?thesis by blast
qed

lemma pulledBefore_Cons: "h \<noteq> m2 \<Longrightarrow> pulledBefore m1 m2 ms \<Longrightarrow> pulledBefore m1 m2 (h # ms)"
  by (simp add: pulledBefore_def)

lemma fresh_PV_facts:
  "isPVNode (MoveOrder_new bd c d pv sp st h S) = pv"
  "b (MoveOrder_new bd c d pv sp st h S) = bd"
  "color (MoveOrder_new bd c d pv sp st h S) = c"
  by (simp_all add: MoveOrder_new_def)

lemma generateMoves_PV_frame:
  "isPVNode (generateMoves s) = isPVNode s" "b (generateMoves s) = b s"
  "color (generateMoves s) = color s"
  by (simp_all add: generateMoves_def scoreCaptures_def scoreQuiets_def findQuietStart_def
        split: MoveGenStage.splits option.splits)

lemma tier_gap:
  assumes "0 < s1" "s2 < 0" "\<bar>t1\<bar> < 2 ^ 29" "\<bar>t2\<bar> < 2 ^ 29"
  shows "SCORE_LOSING_CAPTURE + s2 + t2 < SCORE_WINNING_CAPTURE + s1 + (t1::int)"
  using assms by (simp add: SCORE_LOSING_CAPTURE_def SCORE_WINNING_CAPTURE_def)

lemma fresh_order:
  assumes "NULL_MOVE \<notin> set S" "capturesFirst S" "length S < fuel"
    and "m1 \<in> set S" "m2 \<in> set S" "m1 \<noteq> h" "m2 \<noteq> h" "isCapture m1" "isCapture m2"
    and "0 < getSEEForMove bd c m1" "getSEEForMove bd c m2 < 0"
    and "\<bar>getMVVLVAScore bd c m1\<bar> < 2 ^ 29" "\<bar>getMVVLVAScore bd c m2\<bar> < 2 ^ 29"
    and "getSEEForMove bd c m1 < 2 ^ 28" "- (2 ^ 28) < getSEEForMove bd c m2"
  shows "(\<exists>pulls s'. drainWithHash fuel (MoveOrder_new bd c d True sp st h S) = Inr (pulls, s')
            \<and> m2 \<in> set pulls \<and> pulledBefore m1 m2 pulls)
     \<and> (\<exists>pulls s'. drain fuel (MoveOrder_new bd c d True sp st h S) = Inr (pulls, s')
            \<and> m2 \<in> set pulls \<and> pulledBefore m1 m2 pulls)"
proof -
  let ?s = "MoveOrder_new bd c d True sp st h S"
  let ?a = "SCORE_WINNING_CAPTURE + getSEEForMove bd c m1 + getMVVLVAScore bd c m1"
  let ?c = "SCORE_LOSING_CAPTURE + getSEEForMove bd c m2 + getMVVLVAScore bd c m2"
  have gap: "?c < ?a" using assms(10-13) by (rule tier_gap)
  show ?thesis
  proof (cases "h = NULL_MOVE")
    case True
    let ?c1 = "generateMoves ?s"
    have e: "mgStage ?s = STAGE_HASH_MOVE \<or> (mgStage ?s = STAGE_NONE \<and> hashed ?s = NULL_MOVE)"
      using True by (simp add: fresh_facts)
    have rc: "ready ?c1" "index ?c1 = 0" "legalMoves ?c1 = S"
      using ready_enter_CAPTURES [OF e] assms(1) by (simp_all add: fresh_facts)
    have "winnerAhead (captureScore ?s m1) (captureScore ?s m2) m1 m2 ?c1"
      using assms(2,4,8,9) by (intro winnerAhead_enter_CAPTURES [OF e]) (simp_all add: fresh_facts)
    then have inv: "winnerAhead ?a ?c m1 m2 ?c1"
      using assms(10-15) by (simp add: captureScore_PV fresh_PV_facts)
    from drain_order [OF rc(1,2) inv gap, of fuel] assms(3,5) rc(3)
    obtain pulls s' where p: "drain fuel ?c1 = Inr (pulls, s')" "m2 \<in> set pulls"
      "pulledBefore m1 m2 pulls"
      by auto
    have "mgStage ?c1 = STAGE_CAPTURES" using True
      by (simp add: generateMoves_stage nextStage_def fresh_facts)
    then have "drainWithHash fuel ?s = drain fuel ?c1"
      by (simp add: drainWithHash_def Let_def)
    moreover have "drain fuel ?s = drain fuel ?c1"
      using True by (intro drain_cong nextMove_fresh_no_hash) (simp_all add: fresh_facts)
    ultimately show ?thesis using p by simp
  next
    case False
    let ?h = "generateMoves ?s"
    let ?c1 = "generateMoves ?h"
    note hf = hash_stage_facts [of ?s, unfolded fresh_facts, OF refl False]
    have e: "mgStage ?h = STAGE_HASH_MOVE \<or> (mgStage ?h = STAGE_NONE \<and> hashed ?h = NULL_MOVE)"
      using hf by simp
    have n: "NULL_MOVE \<notin> set (legalMoves ?h)"
      using assms(1) by (simp add: hf notin_remove1)
    have rc: "ready ?c1" "index ?c1 = 0" "legalMoves ?c1 = remove1 h S"
      using ready_enter_CAPTURES [OF e _ _ n] by (simp_all add: hf)
    have in1: "m1 \<in> set (remove1 h S)" and in2: "m2 \<in> set (remove1 h S)"
      using assms(4-7) by simp_all
    have "winnerAhead (captureScore ?h m1) (captureScore ?h m2) m1 m2 ?c1"
      using assms(2,8,9) in1
      by (intro winnerAhead_enter_CAPTURES [OF e]) (simp_all add: hf capturesFirst_remove1)
    then have inv: "winnerAhead ?a ?c m1 m2 ?c1"
      using assms(10-15) by (simp add: captureScore_PV generateMoves_PV_frame fresh_PV_facts)
    have "length (legalMoves ?c1) < fuel"
      using assms(3) length_remove1 [of h S] by (simp add: rc split: if_splits)
    from drain_order [OF rc(1,2) inv gap _ this] in2 rc(3)
    obtain pulls s' where p: "drain fuel ?c1 = Inr (pulls, s')" "m2 \<in> set pulls"
      "pulledBefore m1 m2 pulls"
      by auto
    have "nextMove ?h = Inr (h, ?h)" using hf by (simp add: nextMove_def)
    then have "drainWithHash fuel ?s = Inr (h # pulls, s')"
      using hf(1) p(1) by (simp add: drainWithHash_def Let_def)
    moreover have "pulledBefore m1 m2 (h # pulls)"
      using assms(7) p(3) by (intro pulledBefore_Cons) auto
    moreover have "drain fuel ?s = drain fuel ?c1"
      using False by (intro drain_cong nextMove_fresh_hash) (simp_all add: fresh_facts)
    ultimately show ?thesis using p by simp
  qed
qed

text \<open>
  C6 (amended): at a principal-variation node whose legal moves have the captures
  first and do not hold the sentinel, let \<open>m1\<close> and \<open>m2\<close> be captures among the legal
  moves, neither of them the predicted move, with SEE of \<open>m1\<close> positive, SEE of \<open>m2\<close>
  negative, both SEE values below \<open>2 ^ 28\<close> and both tie-break values below \<open>2 ^ 29\<close>
  in magnitude, so that the scores are computed without leaving the range of \<open>int\<close>.
  Then pulling until exhaustion, with the hash stage driven by the caller or with
  \<open>nextMove\<close> alone, returns \<open>m2\<close>, and \<open>m1\<close> before it.
\<close>

theorem winning_capture_before_losing:
  assumes "NULL_MOVE \<notin> set S" "capturesFirst S" "length S < fuel"
    and "m1 \<in> set S" "m2 \<in> set S" "m1 \<noteq> h" "m2 \<noteq> h" "isCapture m1" "isCapture m2"
    and "0 < getSEEForMove bd c m1" "getSEEForMove bd c m2 < 0"
    and "\<bar>getMVVLVAScore bd c m1\<bar> < 2 ^ 29" "\<bar>getMVVLVAScore bd c m2\<bar> < 2 ^ 29"
    and "getSEEForMove bd c m1 < 2 ^ 28" "- (2 ^ 28) < getSEEForMove bd c m2"
  shows "(\<exists>pulls s'. drainWithHash fuel (MoveOrder_new bd c d True sp st h S) = Inr (pulls, s')
            \<and> m2 \<in> set pulls \<and> pulledBefore m1 m2 pulls)
     \<and> (\<exists>pulls s'. drain fuel (MoveOrder_new bd c d True sp st h S) = Inr (pulls, s')
            \<and> m2 \<in> set pulls \<and> pulledBefore m1 m2 pulls)"
  using assms by (rule fresh_order)

text \<open>
  C6 (as stated, refuted): with the winning capture \<open>ex_C1\<close> as predicted move,
  \<open>nextMove\<close> alone returns the losing capture \<open>ex_C2\<close> and never \<open>ex_C1\<close>; with the
  losing capture \<open>ex_C2\<close> as predicted move, the caller that drives the hash stage
  receives \<open>ex_C2\<close> before \<open>ex_C1\<close>. Without predicted move, when the winning capture
  stands behind a quiet move in the list, the losing capture is returned first.
\<close>

theorem predicted_capture_out_of_order:
  "isPVNode ex_caps1 \<and> isPVNode ex_caps2
   \<and> isCapture ex_C1 \<and> isCapture ex_C2
   \<and> getSEEForMove ex_board 0 ex_C1 = 200 \<and> getSEEForMove ex_board 0 ex_C2 = - 50
   \<and> map_sum id fst (drain 3 ex_caps1) = Inr [ex_C2]
   \<and> \<not> pulledBefore ex_C1 ex_C2 [ex_C2]
   \<and> map_sum id fst (drainWithHash 3 ex_caps2) = Inr [ex_C2, ex_C1]
   \<and> \<not> pulledBefore ex_C1 ex_C2 [ex_C2, ex_C1]
   \<and> map_sum id fst (drain 4 ex_mixed) = Inr [ex_C2, ex_Q, ex_C1]
   \<and> \<not> pulledBefore ex_C1 ex_C2 [ex_C2, ex_Q, ex_C1]"
  by code_simp

text \<open>The amended statement of C6 at the example node.\<close>

theorem winning_capture_before_losing_witness:
  "NULL_MOVE \<notin> set [ex_C1, ex_C2, ex_H, ex_K, ex_Q]
   \<and> capturesFirst [ex_C1, ex_C2, ex_H, ex_K, ex_Q]
   \<and> isCapture ex_C1 \<and> isCapture ex_C2 \<and> ex_C1 \<noteq> ex_H \<and> ex_C2 \<noteq> ex_H
   \<and> 0 < getSEEForMove ex_board 0 ex_C1 \<and> getSEEForMove ex_board 0 ex_C2 < 0
   \<and> (\<exists>pulls s'. drainWithHash 6 (ex_node 0) = Inr (pulls, s')
         \<and> ex_C2 \<in> set pulls \<and> pulledBefore ex_C1 ex_C2 pulls)
   \<and> (\<exists>pulls s'. drain 6 (ex_node 0) = Inr (pulls, s')
         \<and> ex_C2 \<in> set pulls \<and> pulledBefore ex_C1 ex_C2 pulls)"
proof -
  have a: "NULL_MOVE \<notin> set [ex_C1, ex_C2, ex_H, ex_K, ex_Q]"
    and b: "capturesFirst [ex_C1, ex_C2, ex_H, ex_K, ex_Q]"
    and c: "ex_C1 \<in> set [ex_C1, ex_C2, ex_H, ex_K, ex_Q]"
      "ex_C2 \<in> set [ex_C1, ex_C2, ex_H, ex_K, ex_Q]"
    and d: "ex_C1 \<noteq> ex_H" "ex_C2 \<noteq> ex_H" "isCapture ex_C1" "isCapture ex_C2"
    and e: "0 < getSEEForMove ex_board 0 ex_C1" "getSEEForMove ex_board 0 ex_C2 < 0"
    by code_simp+
  have f: "length [ex_C1, ex_C2, ex_H, ex_K, ex_Q] < 6" by simp
  have g: "\<bar>getMVVLVAScore ex_board 0 ex_C1\<bar> < 2 ^ 29"
    "\<bar>getMVVLVAScore ex_board 0 ex_C2\<bar> < 2 ^ 29"
    by (simp_all add: ex_board_def)
  have i: "getSEEForMove ex_board 0 ex_C1 < 2 ^ 28" "- (2 ^ 28) < getSEEForMove ex_board 0 ex_C2"
    by (simp_all add: ex_defs)
  note t = winning_capture_before_losing [OF a b f c d e g i, of 6 "ex_params 0" ex_stack,
      folded ex_node_def]
  with a b d e show ?thesis by blast
qed

end
